theory Spec2Isabelle
  imports Complex_Main
begin

section \<open>Operation gating: \<open>core/state_manager.py\<close>\<close>

text \<open>
  The enumeration \<open>UIState\<close> of the source, member for member and in the order of the
  class body. \<open>state_value\<close> is the \<open>.value\<close> string of each member.
\<close>

datatype UIState =
    INITIAL
  | VOLUME_LOADED
  | ROI1_DEFINED
  | ROI2_DEFINED
  | ROI_DEFINED
  | SEGMENTING
  | MASK_READY
  | REFINING
  | SAVING

fun state_value :: "UIState \<Rightarrow> string" where
  "state_value INITIAL = ''initial''"
| "state_value VOLUME_LOADED = ''volume_loaded''"
| "state_value ROI1_DEFINED = ''roi1_defined''"
| "state_value ROI2_DEFINED = ''roi2_defined''"
| "state_value ROI_DEFINED = ''roi_defined''"
| "state_value SEGMENTING = ''segmenting''"
| "state_value MASK_READY = ''mask_ready''"
| "state_value REFINING = ''refining''"
| "state_value SAVING = ''saving''"

text \<open>Iterating the enumeration class yields its members in definition order.\<close>

definition UIState_members :: "UIState list" where
  "UIState_members =
     [INITIAL, VOLUME_LOADED, ROI1_DEFINED, ROI2_DEFINED, ROI_DEFINED,
      SEGMENTING, MASK_READY, REFINING, SAVING]"

text \<open>
  A registered widget is an arbitrary object; the manager only asks whether it has a
  \<open>setEnabled\<close> method and, if so, calls it. A widget is therefore the pair of that
  capability and the flag the call sets. Callbacks are opaque callables: the model
  records which callback was invoked (by an identifier) and assumes that a callback does
  not itself touch the manager. The line printed by \<open>transition_to\<close> is recorded as the
  pair of states it names.
\<close>

record widget =
  has_setEnabled :: bool
  enabled :: bool

record UIStateManager =
  current_state :: UIState
  widgets :: "string \<rightharpoonup> widget"
  state_callbacks :: "UIState \<rightharpoonup> nat"
  invoked :: "nat list"
  printed :: "(UIState \<times> UIState) list"

definition init_manager :: UIStateManager where
  "init_manager =
     \<lparr>current_state = INITIAL, widgets = Map.empty, state_callbacks = Map.empty,
      invoked = [], printed = []\<rparr>"

definition register_widgets :: "(string \<rightharpoonup> widget) \<Rightarrow> UIStateManager \<Rightarrow> UIStateManager" where
  "register_widgets ws m = m\<lparr>widgets := ws\<rparr>"

definition register_state_callback :: "UIState \<Rightarrow> nat \<Rightarrow> UIStateManager \<Rightarrow> UIStateManager" where
  "register_state_callback s cb m = m\<lparr>state_callbacks := (state_callbacks m)(s \<mapsto> cb)\<rparr>"

definition set_widget_enabled :: "string \<Rightarrow> bool \<Rightarrow> UIStateManager \<Rightarrow> UIStateManager" where
  "set_widget_enabled widget_name en m =
     (case widgets m widget_name of
        None \<Rightarrow> m
      | Some w \<Rightarrow>
          if has_setEnabled w
          then m\<lparr>widgets := (widgets m)(widget_name \<mapsto> w\<lparr>enabled := en\<rparr>)\<rparr>
          else m)"

text \<open>A straight-line block of \<open>_set_widget_enabled\<close> calls, first to last.\<close>

fun set_widgets :: "(string \<times> bool) list \<Rightarrow> UIStateManager \<Rightarrow> UIStateManager" where
  "set_widgets [] m = m"
| "set_widgets ((n, en) # rest) m = set_widgets rest (set_widget_enabled n en m)"

definition set_refinement_params_enabled :: "bool \<Rightarrow> UIStateManager \<Rightarrow> UIStateManager" where
  "set_refinement_params_enabled en m =
     set_widgets
       (map (\<lambda>n. (n, en))
          [''slider_hu_min'', ''slider_hu_max'', ''slider_dilation'', ''slider_closing'',
           ''cb_fill_holes'', ''btn_conservative_preset'', ''btn_aggressive_preset''])
       m"

definition set_initial_state :: "UIStateManager \<Rightarrow> UIStateManager" where
  "set_initial_state m =
     set_refinement_params_enabled False
       (set_widgets
          [(''btn_load'', True), (''btn_draw_roi1'', False), (''btn_draw_roi2'', False),
           (''btn_reset_roi'', False), (''btn_segment'', False),
           (''btn_apply_refinement'', False), (''btn_reset_mask'', False),
           (''btn_save'', False), (''slice_slider'', False)] m)"

definition set_volume_loaded_state :: "UIStateManager \<Rightarrow> UIStateManager" where
  "set_volume_loaded_state m =
     set_refinement_params_enabled False
       (set_widgets
          [(''btn_load'', True), (''btn_draw_roi1'', True), (''btn_draw_roi2'', False),
           (''btn_reset_roi'', True), (''btn_segment'', False),
           (''btn_apply_refinement'', False), (''btn_reset_mask'', False),
           (''btn_save'', False), (''slice_slider'', True)] m)"

definition set_roi1_defined_state :: "UIStateManager \<Rightarrow> UIStateManager" where
  "set_roi1_defined_state m =
     set_refinement_params_enabled False
       (set_widgets
          [(''btn_load'', True), (''btn_draw_roi1'', True), (''btn_draw_roi2'', True),
           (''btn_reset_roi'', True), (''btn_segment'', False),
           (''btn_apply_refinement'', False), (''btn_reset_mask'', False),
           (''btn_save'', False), (''slice_slider'', True)] m)"

definition set_roi_defined_state :: "UIStateManager \<Rightarrow> UIStateManager" where
  "set_roi_defined_state m =
     set_refinement_params_enabled False
       (set_widgets
          [(''btn_load'', True), (''btn_draw_roi1'', True), (''btn_draw_roi2'', True),
           (''btn_reset_roi'', True), (''btn_segment'', True),
           (''btn_apply_refinement'', False), (''btn_reset_mask'', False),
           (''btn_save'', False), (''slice_slider'', True)] m)"

definition set_segmenting_state :: "UIStateManager \<Rightarrow> UIStateManager" where
  "set_segmenting_state m =
     set_refinement_params_enabled False
       (set_widgets
          [(''btn_load'', False), (''btn_draw_roi1'', False), (''btn_draw_roi2'', False),
           (''btn_reset_roi'', False), (''btn_segment'', False),
           (''btn_apply_refinement'', False), (''btn_reset_mask'', False),
           (''btn_save'', False), (''slice_slider'', True)] m)"

definition set_mask_ready_state :: "UIStateManager \<Rightarrow> UIStateManager" where
  "set_mask_ready_state m =
     set_refinement_params_enabled True
       (set_widgets
          [(''btn_load'', True), (''btn_draw_roi1'', True), (''btn_draw_roi2'', True),
           (''btn_reset_roi'', True), (''btn_segment'', True),
           (''btn_apply_refinement'', True), (''btn_reset_mask'', True),
           (''btn_save'', True), (''slice_slider'', True)] m)"

definition set_refining_state :: "UIStateManager \<Rightarrow> UIStateManager" where
  "set_refining_state m =
     set_refinement_params_enabled False
       (set_widgets
          [(''btn_load'', False), (''btn_draw_roi1'', False), (''btn_draw_roi2'', False),
           (''btn_reset_roi'', False), (''btn_segment'', False),
           (''btn_apply_refinement'', False), (''btn_reset_mask'', False),
           (''btn_save'', False), (''slice_slider'', True)] m)"

definition set_saving_state :: "UIStateManager \<Rightarrow> UIStateManager" where
  "set_saving_state m =
     set_widgets
       [(''btn_load'', False), (''btn_save'', False), (''btn_apply_refinement'', False)] m"

text \<open>
  The \<open>if\<close>/\<open>elif\<close> chain of \<open>_apply_state\<close>, in the order of the source. It has no branch
  for \<open>ROI2_DEFINED\<close>: in that state no widget is reconfigured.
\<close>

definition apply_state :: "UIStateManager \<Rightarrow> UIStateManager" where
  "apply_state m =
     (let state = current_state m in
      if state = INITIAL then set_initial_state m
      else if state = ROI1_DEFINED then set_roi1_defined_state m
      else if state = VOLUME_LOADED then set_volume_loaded_state m
      else if state = ROI_DEFINED then set_roi_defined_state m
      else if state = SEGMENTING then set_segmenting_state m
      else if state = MASK_READY then set_mask_ready_state m
      else if state = REFINING then set_refining_state m
      else if state = SAVING then set_saving_state m
      else m)"

definition transition_to :: "UIState \<Rightarrow> UIStateManager \<Rightarrow> UIStateManager" where
  "transition_to new_state m =
     (if new_state = current_state m then m
      else
        let m1 = m\<lparr>printed := printed m @ [(current_state m, new_state)]\<rparr>;
            m2 = m1\<lparr>current_state := new_state\<rparr>;
            m3 = apply_state m2
        in (case state_callbacks m3 new_state of
              None \<Rightarrow> m3
            | Some cb \<Rightarrow> m3\<lparr>invoked := invoked m3 @ [cb]\<rparr>))"

definition can_load_dicom :: "UIStateManager \<Rightarrow> bool" where
  "can_load_dicom m = (\<not> List.member [SEGMENTING, REFINING, SAVING] (current_state m))"

definition can_segment :: "UIStateManager \<Rightarrow> bool" where
  "can_segment m = List.member [ROI_DEFINED, MASK_READY] (current_state m)"

definition can_refine :: "UIStateManager \<Rightarrow> bool" where
  "can_refine m = (current_state m = MASK_READY)"

definition can_save :: "UIStateManager \<Rightarrow> bool" where
  "can_save m = (current_state m = MASK_READY)"

section \<open>Arrays and the library operations the pipeline calls\<close>

text \<open>
  Python raises \<open>ValueError\<close>, \<open>KeyError\<close> and \<open>ZeroDivisionError\<close> in the code modelled
  here; each is a value of \<open>py_error\<close> and a failing call returns \<open>Inl\<close> of it.
\<close>

datatype py_error = ValueError | KeyError string | ZeroDivisionError

text \<open>
  A three-dimensional NumPy array: its shape \<open>(depth, height, width)\<close> and its elements
  in C order, so that the element at \<open>(z, y, x)\<close> is \<open>data ! ((z * height + y) * width + x)\<close>.
  NumPy keeps \<open>length data = depth * height * width\<close>; that is \<open>wf_array\<close>. A mask
  (\<open>uint8\<close> or \<open>bool\<close>) has unsigned elements and is a \<open>nat ndarray\<close>, with \<open>True\<close> as 1;
  the volume has signed intensities. Floating-point numbers are modelled by exact
  rationals: rounding is not part of the model.
\<close>

record 'a ndarray =
  shape :: "nat \<times> nat \<times> nat"
  data :: "'a list"

type_synonym mask = "nat ndarray"

type_synonym volume = "int ndarray"

definition numel :: "nat \<times> nat \<times> nat \<Rightarrow> nat" where
  "numel sh = (case sh of (d, h, w) \<Rightarrow> d * h * w)"

definition wf_array :: "'a ndarray \<Rightarrow> bool" where
  "wf_array a = (length (data a) = numel (shape a))"

text \<open>
  \<open>int(np.sum(mask))\<close>: the sum of the element values (the number of set voxels only when
  the mask holds nothing but 0 and 1).
\<close>

definition np_sum :: "mask \<Rightarrow> int" where
  "np_sum a = int (sum_list (data a))"

definition np_any :: "nat list \<Rightarrow> bool" where
  "np_any xs = list_ex (\<lambda>x. x \<noteq> 0) xs"

definition zeros_like :: "mask \<Rightarrow> mask" where
  "zeros_like a = \<lparr>shape = shape a, data = map (\<lambda>_. 0) (data a)\<rparr>"

text \<open>
  The neighbours of the voxel with flat index \<open>i\<close> under the structuring element that
  \<open>scipy.ndimage\<close> uses when none is given (\<open>generate_binary_structure(3, 1)\<close>): the up to
  six voxels that share a face with it and lie inside the array.
\<close>

definition neighbours :: "nat \<times> nat \<times> nat \<Rightarrow> nat \<Rightarrow> nat list" where
  "neighbours sh i =
     (case sh of (d, h, w) \<Rightarrow>
        let z = i div (h * w); y = (i div w) mod h; x = i mod w in
        (if 0 < z then [i - h * w] else []) @
        (if z + 1 < d then [i + h * w] else []) @
        (if 0 < y then [i - w] else []) @
        (if y + 1 < h then [i + w] else []) @
        (if 0 < x then [i - 1] else []) @
        (if x + 1 < w then [i + 1] else []))"

text \<open>
  Flood fill with an explicit stack: \<open>flood nb ok n stack visited\<close> adds to \<open>visited\<close>
  every index below \<open>n\<close> that satisfies \<open>ok\<close> and can be reached from the stack through
  such indices along \<open>nb\<close>. Each round either marks a new index or shortens the stack.
\<close>

function flood :: "(nat \<Rightarrow> nat list) \<Rightarrow> (nat \<Rightarrow> bool) \<Rightarrow> nat \<Rightarrow> nat list \<Rightarrow> nat list \<Rightarrow> nat list" where
  "flood nb ok n [] visited = visited"
| "flood nb ok n (v # stack) visited =
     (if v < n \<and> ok v \<and> v \<notin> set visited
      then flood nb ok n (nb v @ stack) (v # visited)
      else flood nb ok n stack visited)"
  by pat_completeness auto
termination
proof (relation "measures [\<lambda>(nb, ok, n, stack, visited). card ({v. v < n \<and> ok v} - set visited),
                            \<lambda>(nb, ok, n, stack, visited). length stack]", goal_cases)
  case 1
  then show ?case by simp
next
  case (2 nb ok n v stack visited)
  have "finite ({v. v < n \<and> ok v} - set visited)"
    by simp
  moreover from 2 have "{v. v < n \<and> ok v} - set (v # visited) \<subset> {v. v < n \<and> ok v} - set visited"
    by auto
  ultimately have "card ({v. v < n \<and> ok v} - set (v # visited)) < card ({v. v < n \<and> ok v} - set visited)"
    by (rule psubset_card_mono)
  then show ?case
    by simp
next
  case (3 nb ok n v stack visited)
  then show ?case by simp
qed

text \<open>
  \<open>ndimage.label(mask)\<close>: every non-zero element is foreground; the components of the
  foreground under face adjacency are numbered \<open>1, 2, \<dots>\<close> in the order in which a scan
  of the array in C order first meets them, and the background is 0. The function returns
  the array of labels and the number of components. This is the documented result of the
  library call, computed here by one flood fill per component.
\<close>

definition foreground :: "mask \<Rightarrow> nat \<Rightarrow> bool" where
  "foreground m v = (data m ! v \<noteq> 0)"

definition paint :: "nat list \<Rightarrow> nat \<Rightarrow> nat list \<Rightarrow> nat list" where
  "paint vs l labeled = fold (\<lambda>u acc. acc[u := l]) vs labeled"

fun label_loop :: "mask \<Rightarrow> nat list \<Rightarrow> nat list \<times> nat \<Rightarrow> nat list \<times> nat" where
  "label_loop m [] (labeled, num) = (labeled, num)"
| "label_loop m (v # vs) (labeled, num) =
     (if foreground m v \<and> labeled ! v = 0
      then label_loop m vs
             (paint (flood (neighbours (shape m)) (foreground m) (numel (shape m)) [v] [])
                (num + 1) labeled, num + 1)
      else label_loop m vs (labeled, num))"

definition label :: "mask \<Rightarrow> nat list \<times> nat" where
  "label m = label_loop m [0..<numel (shape m)] (replicate (numel (shape m)) 0, 0)"

text \<open>
  \<open>ndimage.sum(mask, labeled, index)\<close>: for each label in \<open>index\<close>, the sum of the values
  of \<open>mask\<close> over the voxels carrying that label, as floating-point numbers.
  \<open>np.max\<close> is only ever applied to a non-empty list of sizes.
\<close>

definition ndimage_sum :: "mask \<Rightarrow> nat list \<Rightarrow> nat list \<Rightarrow> rat list" where
  "ndimage_sum m labeled index =
     map (\<lambda>i. of_nat (sum_list (map (\<lambda>(l, x). if l = i then x else 0) (zip labeled (data m))))) index"

definition np_max :: "rat list \<Rightarrow> rat" where
  "np_max xs = fold max (tl xs) (hd xs)"

text \<open>
  \<open>ndimage.binary_dilation(mask, iterations=k)\<close> for \<open>k \<ge> 1\<close>: the input is read as booleans
  and dilated \<open>k\<close> times with the face-neighbour structuring element; voxels outside the
  array count as unset.
\<close>

definition to_bool :: "nat \<Rightarrow> nat" where
  "to_bool x = (if x \<noteq> 0 then 1 else 0)"

definition dilate_step :: "mask \<Rightarrow> mask" where
  "dilate_step a =
     \<lparr>shape = shape a,
      data = map (\<lambda>i. if data a ! i \<noteq> 0 \<or> list_ex (\<lambda>j. data a ! j \<noteq> 0) (neighbours (shape a) i)
                      then 1 else 0)
               [0..<length (data a)]\<rparr>"

definition binary_dilation :: "mask \<Rightarrow> nat \<Rightarrow> mask" where
  "binary_dilation a iterations =
     (dilate_step ^^ iterations) \<lparr>shape = shape a, data = map to_bool (data a)\<rparr>"

text \<open>
  \<open>ndimage.binary_closing(mask, structure=np.ones((s, s, s)))\<close>: a dilation followed by an
  erosion with the cube of side \<open>s\<close>, both with \<open>border_value = 0\<close>. The erosion reads the
  offsets \<open>- (s div 2), \<dots>, (s - 1) div 2\<close> on each axis; the dilation uses the reflected
  element, the offsets \<open>- ((s - 1) div 2), \<dots>, s div 2\<close>. A voxel outside the array is
  unset, so the erosion clears every voxel whose cube leaves the array.
\<close>

definition coords :: "nat \<times> nat \<times> nat \<Rightarrow> nat \<Rightarrow> int \<times> int \<times> int" where
  "coords sh i =
     (case sh of (d, h, w) \<Rightarrow> (int (i div (h * w)), int ((i div w) mod h), int (i mod w)))"

definition voxel_set :: "mask \<Rightarrow> int \<Rightarrow> int \<Rightarrow> int \<Rightarrow> bool" where
  "voxel_set a z y x =
     (case shape a of (d, h, w) \<Rightarrow>
        0 \<le> z \<and> z < int d \<and> 0 \<le> y \<and> y < int h \<and> 0 \<le> x \<and> x < int w \<and>
        data a ! nat ((z * int h + y) * int w + x) \<noteq> 0)"

definition dilation_offsets :: "int \<Rightarrow> int list" where
  "dilation_offsets s = [- ((s - 1) div 2) .. s div 2]"

definition erosion_offsets :: "int \<Rightarrow> int list" where
  "erosion_offsets s = [- (s div 2) .. (s - 1) div 2]"

definition dilate_cube :: "mask \<Rightarrow> int \<Rightarrow> mask" where
  "dilate_cube a s =
     \<lparr>shape = shape a,
      data = map (\<lambda>i. case coords (shape a) i of (z, y, x) \<Rightarrow>
                   if list_ex (\<lambda>dz. list_ex (\<lambda>dy. list_ex (\<lambda>dx.
                        voxel_set a (z + dz) (y + dy) (x + dx))
                        (dilation_offsets s)) (dilation_offsets s)) (dilation_offsets s)
                   then 1 else 0)
               [0..<length (data a)]\<rparr>"

definition erode_cube :: "mask \<Rightarrow> int \<Rightarrow> mask" where
  "erode_cube a s =
     \<lparr>shape = shape a,
      data = map (\<lambda>i. case coords (shape a) i of (z, y, x) \<Rightarrow>
                   if list_all (\<lambda>dz. list_all (\<lambda>dy. list_all (\<lambda>dx.
                        voxel_set a (z + dz) (y + dy) (x + dx))
                        (erosion_offsets s)) (erosion_offsets s)) (erosion_offsets s)
                   then 1 else 0)
               [0..<length (data a)]\<rparr>"

definition binary_closing :: "mask \<Rightarrow> int \<Rightarrow> mask" where
  "binary_closing a s = erode_cube (dilate_cube a s) s"

text \<open>
  \<open>ndimage.binary_fill_holes\<close> on one two-dimensional slice of shape \<open>(h, w)\<close>: the
  background that is connected to the outside of the slice (through edge-adjacent
  background pixels, starting at the pixels of the slice's border) stays unset; everything
  else is set.
\<close>

definition on_border :: "nat \<times> nat \<Rightarrow> nat \<Rightarrow> bool" where
  "on_border sh2 i =
     (case sh2 of (h, w) \<Rightarrow>
        i div w = 0 \<or> i div w + 1 = h \<or> i mod w = 0 \<or> i mod w + 1 = w)"

definition binary_fill_holes :: "nat \<times> nat \<Rightarrow> nat list \<Rightarrow> nat list" where
  "binary_fill_holes sh2 xs =
     (case sh2 of (h, w) \<Rightarrow>
        let background = (\<lambda>i. xs ! i = 0);
            seeds = filter (\<lambda>i. background i \<and> on_border sh2 i) [0..<h * w];
            outside = flood (neighbours (1, h, w)) background (h * w) seeds []
        in map (\<lambda>i. if i \<in> set outside then 0 else 1) [0..<h * w])"

text \<open>
  \<open>mask[z]\<close> read, and \<open>mask[z] = xs\<close> written.
\<close>

definition get_slice :: "mask \<Rightarrow> nat \<Rightarrow> nat list" where
  "get_slice a z = (case shape a of (d, h, w) \<Rightarrow> take (h * w) (drop (z * (h * w)) (data a)))"

definition set_slice :: "mask \<Rightarrow> nat \<Rightarrow> nat list \<Rightarrow> mask" where
  "set_slice a z xs =
     (case shape a of (d, h, w) \<Rightarrow>
        a\<lparr>data := take (z * (h * w)) (data a) @ xs @ drop ((z + 1) * (h * w)) (data a)\<rparr>)"

section \<open>Mask post-processing: \<open>core/processing.py\<close>\<close>

text \<open>
  The pipeline mutates arrays in place (\<open>mask_cleaned[labeled == i] = 1\<close>,
  \<open>mask[z] = \<dots>\<close>) and passes them by reference. The masks therefore live in a store: a
  list of arrays, a reference being an index into it. Creating an array appends it, so a
  fresh reference is the length of the store before the call. The temporaries that no
  variable of the pipeline keeps (\<open>lung_tissue\<close>, \<open>dilated\<close>, \<open>labeled\<close>) are plain values.
  The volume is only ever read and is passed as a value.
\<close>

type_synonym heap = "mask list"

definition alloc :: "mask \<Rightarrow> heap \<Rightarrow> nat \<times> heap" where
  "alloc a h = (length h, h @ [a])"

text \<open>
  The statistics of one step are a Python dictionary from strings to integers, in insertion
  order; an entry of \<open>stats['steps']\<close> adds the step's name to it.
\<close>

type_synonym step_stats = "(string \<times> int) list"

record step =
  name :: string
  entries :: step_stats

text \<open>
  \<open>dilated & lung_tissue\<close>: NumPy broadcasts the two operands. Two extents are compatible
  when they are equal or one of them is 1; incompatible shapes raise \<open>ValueError\<close>. The
  operands hold only 0 and 1, where the bitwise and is the logical one.
\<close>

definition broadcast_dim :: "nat \<Rightarrow> nat \<Rightarrow> nat option" where
  "broadcast_dim a b = (if a = b then Some a else if a = 1 then Some b else if b = 1 then Some a else None)"

definition broadcast_shape :: "nat \<times> nat \<times> nat \<Rightarrow> nat \<times> nat \<times> nat \<Rightarrow> (nat \<times> nat \<times> nat) option" where
  "broadcast_shape sa sb =
     (case (sa, sb) of ((da, ha, wa), (db, hb, wb)) \<Rightarrow>
        (case (broadcast_dim da db, broadcast_dim ha hb, broadcast_dim wa wb) of
           (Some d, Some h, Some w) \<Rightarrow> Some (d, h, w)
         | _ \<Rightarrow> None))"

definition broadcast_get :: "mask \<Rightarrow> nat \<times> nat \<times> nat \<Rightarrow> nat \<Rightarrow> nat" where
  "broadcast_get a sh i =
     (case (shape a, sh) of ((da, ha, wa), (d, h, w)) \<Rightarrow>
        let z = i div (h * w); y = (i div w) mod h; x = i mod w;
            za = (if da = 1 then 0 else z);
            ya = (if ha = 1 then 0 else y);
            xa = (if wa = 1 then 0 else x)
        in data a ! ((za * ha + ya) * wa + xa))"

definition np_and :: "mask \<Rightarrow> mask \<Rightarrow> py_error + mask" where
  "np_and a b =
     (case broadcast_shape (shape a) (shape b) of
        None \<Rightarrow> Inl ValueError
      | Some sh \<Rightarrow>
          Inr \<lparr>shape = sh,
               data = map (\<lambda>i. if broadcast_get a sh i \<noteq> 0 \<and> broadcast_get b sh i \<noteq> 0 then 1 else 0)
                        [0..<numel sh]\<rparr>)"

text \<open>
  The functions of \<open>processing.py\<close>, under the names of the source without the leading
  underscore. Each takes the reference of the mask and the store and returns its result
  with the new store. \<open>mask_ref\<close> stands for the source's parameter \<open>mask\<close> and \<open>sz\<close> for
  \<open>size\<close>, names that are taken in HOL.
\<close>

definition apply_hu_dilation ::
  "nat \<Rightarrow> volume \<Rightarrow> rat \<Rightarrow> rat \<Rightarrow> nat \<Rightarrow> heap \<Rightarrow> (py_error + nat \<times> step_stats) \<times> heap" where
  "apply_hu_dilation mask_ref vol hu_lo hu_hi iterations h =
     (let count_before = np_sum (h ! mask_ref);
          lung_tissue = \<lparr>shape = shape vol,
                         data = map (\<lambda>v. if hu_lo \<le> of_int v \<and> of_int v \<le> hu_hi then 1 else 0)
                                  (data vol)\<rparr>;
          dilated = binary_dilation (h ! mask_ref) iterations
      in case np_and dilated lung_tissue of
           Inl e \<Rightarrow> (Inl e, h)
         | Inr r \<Rightarrow>
             let (mask_new, h') = alloc r h;
                 count_after = np_sum (h' ! mask_new)
             in (Inr (mask_new, [(''voxels_before'', count_before),
                              (''voxels_after'', count_after),
                              (''voxels_added'', count_after - count_before)]), h'))"

definition apply_morphological_closing :: "nat \<Rightarrow> int \<Rightarrow> heap \<Rightarrow> (nat \<times> step_stats) \<times> heap" where
  "apply_morphological_closing mask_ref sz h =
     (let count_before = np_sum (h ! mask_ref);
          (mask_new, h') = alloc (binary_closing (h ! mask_ref) sz) h;
          count_after = np_sum (h' ! mask_new)
      in ((mask_new, [(''voxels_before'', count_before),
                   (''voxels_after'', count_after),
                   (''voxels_added'', count_after - count_before)]), h'))"

text \<open>
  \<open>mask_cleaned[labeled == i] = 1\<close>, and the loop over \<open>enumerate(sizes, 1)\<close> around it.
\<close>

definition assign_where :: "nat list \<Rightarrow> nat \<Rightarrow> mask \<Rightarrow> mask" where
  "assign_where labeled i a =
     a\<lparr>data := map (\<lambda>(l, x). if l = i then 1 else x) (zip labeled (data a))\<rparr>"

fun keep_loop :: "nat list \<Rightarrow> rat \<Rightarrow> nat \<Rightarrow> (nat \<times> rat) list \<Rightarrow> heap \<times> int \<Rightarrow> heap \<times> int" where
  "keep_loop labeled threshold mask_cleaned [] (h, components_kept) = (h, components_kept)"
| "keep_loop labeled threshold mask_cleaned ((i, sz) # rest) (h, components_kept) =
     (if sz > threshold
      then keep_loop labeled threshold mask_cleaned rest
             (h[mask_cleaned := assign_where labeled i (h ! mask_cleaned)], components_kept + 1)
      else keep_loop labeled threshold mask_cleaned rest (h, components_kept))"

definition remove_small_components :: "nat \<Rightarrow> rat \<Rightarrow> heap \<Rightarrow> (nat \<times> step_stats) \<times> heap" where
  "remove_small_components mask_ref threshold_ratio h =
     (let count_before = np_sum (h ! mask_ref);
          (labeled, num_features) = label (h ! mask_ref)
      in if num_features = 0
         then ((mask_ref, [(''voxels_before'', count_before),
                       (''voxels_after'', 0),
                       (''components_removed'', 0)]), h)
         else
           let sizes = ndimage_sum (h ! mask_ref) labeled [1..<num_features + 1];
               max_size = np_max sizes;
               threshold = max_size * threshold_ratio;
               (mask_cleaned, h1) = alloc (zeros_like (h ! mask_ref)) h;
               (h2, components_kept) =
                  keep_loop labeled threshold mask_cleaned (enumerate 1 sizes) (h1, 0);
               count_after = np_sum (h2 ! mask_cleaned)
           in ((mask_cleaned, [(''voxels_before'', count_before),
                               (''voxels_after'', count_after),
                               (''voxels_removed'', count_before - count_after),
                               (''components_total'', int num_features),
                               (''components_kept'', components_kept),
                               (''components_removed'', int num_features - components_kept)]), h2))"

text \<open>
  The loop of \<open>_fill_holes_2d\<close> over the slices: it overwrites the slices of the array it
  was given.
\<close>

fun fill_loop :: "nat \<Rightarrow> nat list \<Rightarrow> heap \<times> int \<Rightarrow> heap \<times> int" where
  "fill_loop mask_ref [] (h, slices_processed) = (h, slices_processed)"
| "fill_loop mask_ref (z # zs) (h, slices_processed) =
     (if np_any (get_slice (h ! mask_ref) z)
      then fill_loop mask_ref zs
             (h[mask_ref := set_slice (h ! mask_ref) z
                          (binary_fill_holes (fst (snd (shape (h ! mask_ref))), snd (snd (shape (h ! mask_ref))))
                             (get_slice (h ! mask_ref) z))],
              slices_processed + 1)
      else fill_loop mask_ref zs (h, slices_processed))"

definition fill_holes_2d :: "nat \<Rightarrow> heap \<Rightarrow> (nat \<times> step_stats) \<times> heap" where
  "fill_holes_2d mask_ref h =
     (let count_before = np_sum (h ! mask_ref);
          total_slices = fst (shape (h ! mask_ref));
          (h', slices_processed) = fill_loop mask_ref [0..<total_slices] (h, 0);
          count_after = np_sum (h' ! mask_ref)
      in ((mask_ref, [(''voxels_before'', count_before),
                  (''voxels_after'', count_after),
                  (''voxels_added'', count_after - count_before),
                  (''slices_processed'', slices_processed)]), h'))"

text \<open>
  The parameter dictionary: a key may be absent. \<open>dict_get\<close> is \<open>params.get(key, default)\<close>
  and \<open>dict_item\<close> is \<open>params[key]\<close>, which raises \<open>KeyError\<close> on an absent key.
\<close>

record params =
  hu_min :: "rat option"
  hu_max :: "rat option"
  dilation_iter :: "int option"
  closing_size :: "int option"
  fill_holes :: "bool option"

record statistics =
  base_count :: int
  steps :: "step list"
  final_count :: int
  improvement_percent :: rat
  volume_ml :: rat
  params :: params

definition dict_get :: "'a option \<Rightarrow> 'a \<Rightarrow> 'a" where
  "dict_get entry dflt = (case entry of None \<Rightarrow> dflt | Some v \<Rightarrow> v)"

definition dict_item :: "string \<Rightarrow> 'a option \<Rightarrow> py_error + 'a" where
  "dict_item key entry = (case entry of None \<Rightarrow> Inl (KeyError key) | Some v \<Rightarrow> Inr v)"

text \<open>
  Python's \<open>/\<close> on integers raises \<open>ZeroDivisionError\<close> on a zero divisor.
\<close>

definition py_truediv :: "int \<Rightarrow> int \<Rightarrow> py_error + rat" where
  "py_truediv a b = (if b = 0 then Inl ZeroDivisionError else Inr (of_int a / of_int b))"

definition np_prod :: "rat \<times> rat \<times> rat \<Rightarrow> rat" where
  "np_prod spacing = (case spacing of (sx, sy, sz) \<Rightarrow> sx * sy * sz)"

text \<open>
  \<open>mask.astype(np.uint8)\<close> and \<open>mask.copy()\<close> create a new array.
\<close>

definition astype_uint8 :: "nat \<Rightarrow> heap \<Rightarrow> nat \<times> heap" where
  "astype_uint8 mask_ref h = alloc ((h ! mask_ref)\<lparr>data := map (\<lambda>x. x mod 256) (data (h ! mask_ref))\<rparr>) h"

definition np_copy :: "nat \<Rightarrow> heap \<Rightarrow> nat \<times> heap" where
  "np_copy a h = alloc (h ! a) h"

text \<open>
  Sequencing: an exception ends the call, with the store as it is at that point.
\<close>

definition then_do ::
  "(py_error + 'a) \<times> 's \<Rightarrow> ('a \<Rightarrow> 's \<Rightarrow> (py_error + 'b) \<times> 's) \<Rightarrow> (py_error + 'b) \<times> 's" where
  "then_do r f = (case r of (Inl e, h) \<Rightarrow> (Inl e, h) | (Inr x, h) \<Rightarrow> f x h)"

text \<open>
  \<open>refine_mask\<close>, block by block as the source comments them (steps 1 to 4, then the
  final statistics). Each block takes the current mask reference and the list
  \<open>stats['steps']\<close> built so far.
\<close>

definition refine_step1 ::
  "volume \<Rightarrow> params \<Rightarrow> nat \<times> step list \<Rightarrow> heap \<Rightarrow> (py_error + nat \<times> step list) \<times> heap" where
  "refine_step1 vol ps st h =
     (case st of (mask_ref, steps_so_far) \<Rightarrow>
        if dict_get (dilation_iter ps) 0 > 0
        then (case dict_item ''hu_min'' (hu_min ps) of
                Inl e \<Rightarrow> (Inl e, h)
              | Inr lo \<Rightarrow>
            (case dict_item ''hu_max'' (hu_max ps) of
                Inl e \<Rightarrow> (Inl e, h)
              | Inr hi \<Rightarrow>
            (case dict_item ''dilation_iter'' (dilation_iter ps) of
                Inl e \<Rightarrow> (Inl e, h)
              | Inr it \<Rightarrow>
                  then_do (apply_hu_dilation mask_ref vol lo hi (nat it) h)
                    (\<lambda>(mask_new, step_stats) h'.
                       (Inr (mask_new,
                             steps_so_far @ [\<lparr>name = ''HU Dilation'', entries = step_stats\<rparr>]),
                        h')))))
        else (Inr (mask_ref, steps_so_far), h))"

definition refine_step2 ::
  "params \<Rightarrow> nat \<times> step list \<Rightarrow> heap \<Rightarrow> (py_error + nat \<times> step list) \<times> heap" where
  "refine_step2 ps st h =
     (case st of (mask_ref, steps_so_far) \<Rightarrow>
        if dict_get (closing_size ps) 1 > 1
        then (case dict_item ''closing_size'' (closing_size ps) of
                Inl e \<Rightarrow> (Inl e, h)
              | Inr sz \<Rightarrow>
                  (case apply_morphological_closing mask_ref sz h of
                     ((mask_new, step_stats), h') \<Rightarrow>
                       (Inr (mask_new,
                             steps_so_far @
                               [\<lparr>name = ''Morphological Closing'', entries = step_stats\<rparr>]),
                        h')))
        else (Inr (mask_ref, steps_so_far), h))"

definition refine_step3 ::
  "nat \<times> step list \<Rightarrow> heap \<Rightarrow> (py_error + nat \<times> step list) \<times> heap" where
  "refine_step3 st h =
     (case st of (mask_ref, steps_so_far) \<Rightarrow>
        (case remove_small_components mask_ref (1 / 100) h of
           ((mask_new, step_stats), h') \<Rightarrow>
             (Inr (mask_new, steps_so_far @ [\<lparr>name = ''Noise Removal'', entries = step_stats\<rparr>]),
              h')))"

definition refine_step4 ::
  "params \<Rightarrow> nat \<times> step list \<Rightarrow> heap \<Rightarrow> (py_error + nat \<times> step list) \<times> heap" where
  "refine_step4 ps st h =
     (case st of (mask_ref, steps_so_far) \<Rightarrow>
        if dict_get (fill_holes ps) False
        then (case fill_holes_2d mask_ref h of
                ((mask_new, step_stats), h') \<Rightarrow>
                  (Inr (mask_new,
                        steps_so_far @ [\<lparr>name = ''Hole Filling'', entries = step_stats\<rparr>]),
                   h'))
        else (Inr (mask_ref, steps_so_far), h))"

definition improvement_of :: "int \<Rightarrow> int \<Rightarrow> py_error + rat" where
  "improvement_of base_cnt final_cnt =
     (if base_cnt > 0
      then (case py_truediv (final_cnt - base_cnt) base_cnt of
              Inl e \<Rightarrow> Inl e
            | Inr q \<Rightarrow> Inr (q * 100))
      else Inr 0)"

definition final_statistics ::
  "int \<Rightarrow> rat \<times> rat \<times> rat \<Rightarrow> params \<Rightarrow> nat \<times> step list \<Rightarrow> heap \<Rightarrow>
     (py_error + nat \<times> statistics) \<times> heap" where
  "final_statistics base_cnt spacing ps st h =
     (case st of (mask_ref, steps_so_far) \<Rightarrow>
        let final_cnt = np_sum (h ! mask_ref) in
        (case improvement_of base_cnt final_cnt of
           Inl e \<Rightarrow> (Inl e, h)
         | Inr improvement \<Rightarrow>
             let vol_ml = of_int final_cnt * np_prod spacing / 1000;
                 (out, h') = astype_uint8 mask_ref h
             in (Inr (out, \<lparr>base_count = base_cnt, steps = steps_so_far,
                            final_count = final_cnt,
                            improvement_percent = improvement,
                            volume_ml = vol_ml, params = ps\<rparr>), h')))"

definition refine_mask ::
  "nat \<Rightarrow> volume \<Rightarrow> rat \<times> rat \<times> rat \<Rightarrow> params \<Rightarrow> heap \<Rightarrow> (py_error + nat \<times> statistics) \<times> heap" where
  "refine_mask base_mask vol spacing ps h =
     (let (mask0, h0) = np_copy base_mask h;
          base_cnt = np_sum (h0 ! mask0)
      in then_do (refine_step1 vol ps (mask0, []) h0) (\<lambda>st1 h1.
         then_do (refine_step2 ps st1 h1) (\<lambda>st2 h2.
         then_do (refine_step3 st2 h2) (\<lambda>st3 h3.
         then_do (refine_step4 ps st3 h3) (\<lambda>st4 h4.
           final_statistics base_cnt spacing ps st4 h4)))))"

section \<open>The worker's inlined pipeline: \<open>gui/workers.py\<close>\<close>

text \<open>
  The worker repeats the pipeline inline and reports its progress through a Qt signal. An
  emitted signal is recorded in a log as the percentage and the kind of message (the message
  texts themselves are not modelled). \<open>self\<close> is the worker object with the fields that
  \<open>__init__\<close> stores.
\<close>

datatype progress_msg =
    MsgDilation rat rat
  | MsgClosing
  | MsgNoise
  | MsgFillHoles nat nat
  | MsgFinalize

type_synonym progress_log = "(int \<times> progress_msg) list"

record worker =
  self_base_mask :: nat
  self_volume :: volume
  self_spacing :: "rat \<times> rat \<times> rat"
  self_params :: params
  self_organ_key :: string

definition emit :: "int \<Rightarrow> progress_msg \<Rightarrow> heap \<times> progress_log \<Rightarrow> heap \<times> progress_log" where
  "emit pct msg st = (case st of (h, lg) \<Rightarrow> (h, lg @ [(pct, msg)]))"

definition worker_step1 ::
  "worker \<Rightarrow> nat \<Rightarrow> heap \<times> progress_log \<Rightarrow> (py_error + nat) \<times> (heap \<times> progress_log)" where
  "worker_step1 self mask_ref st =
     (if dict_get (dilation_iter (self_params self)) 0 > 0
      then (case dict_item ''hu_min'' (hu_min (self_params self)) of
              Inl e \<Rightarrow> (Inl e, st)
            | Inr lo \<Rightarrow>
          (case dict_item ''hu_max'' (hu_max (self_params self)) of
              Inl e \<Rightarrow> (Inl e, st)
            | Inr hi \<Rightarrow>
              (case emit 20 (MsgDilation lo hi) st of (h, lg) \<Rightarrow>
                 let lung_tissue =
                       \<lparr>shape = shape (self_volume self),
                        data = map (\<lambda>v. if lo \<le> of_int v \<and> of_int v \<le> hi then 1 else 0)
                                 (data (self_volume self))\<rparr>
                 in (case dict_item ''dilation_iter'' (dilation_iter (self_params self)) of
                       Inl e \<Rightarrow> (Inl e, (h, lg))
                     | Inr it \<Rightarrow>
                         (case np_and (binary_dilation (h ! mask_ref) (nat it)) lung_tissue of
                            Inl e \<Rightarrow> (Inl e, (h, lg))
                          | Inr r \<Rightarrow>
                              (case alloc r h of (mask_new, h') \<Rightarrow> (Inr mask_new, (h', lg))))))))
      else (Inr mask_ref, st))"

definition worker_step2 ::
  "worker \<Rightarrow> nat \<Rightarrow> heap \<times> progress_log \<Rightarrow> (py_error + nat) \<times> (heap \<times> progress_log)" where
  "worker_step2 self mask_ref st =
     (if dict_get (closing_size (self_params self)) 1 > 1
      then (case emit 40 MsgClosing st of (h, lg) \<Rightarrow>
              (case dict_item ''closing_size'' (closing_size (self_params self)) of
                 Inl e \<Rightarrow> (Inl e, (h, lg))
               | Inr sz \<Rightarrow>
                   (case alloc (binary_closing (h ! mask_ref) sz) h of
                      (mask_new, h') \<Rightarrow> (Inr mask_new, (h', lg)))))
      else (Inr mask_ref, st))"

fun worker_keep_loop :: "nat list \<Rightarrow> rat \<Rightarrow> nat \<Rightarrow> (nat \<times> rat) list \<Rightarrow> heap \<Rightarrow> heap" where
  "worker_keep_loop labeled threshold mask_cleaned [] h = h"
| "worker_keep_loop labeled threshold mask_cleaned ((i, sz) # rest) h =
     (if sz > threshold
      then worker_keep_loop labeled threshold mask_cleaned rest
             (h[mask_cleaned := assign_where labeled i (h ! mask_cleaned)])
      else worker_keep_loop labeled threshold mask_cleaned rest h)"

definition worker_step3 ::
  "nat \<Rightarrow> heap \<times> progress_log \<Rightarrow> (py_error + nat) \<times> (heap \<times> progress_log)" where
  "worker_step3 mask_ref st =
     (case emit 60 MsgNoise st of (h, lg) \<Rightarrow>
        (case label (h ! mask_ref) of (labeled, num_features) \<Rightarrow>
           if num_features > 0
           then
             let sizes = ndimage_sum (h ! mask_ref) labeled [1..<num_features + 1];
                 max_size = np_max sizes;
                 threshold = max_size * (1 / 100);
                 (mask_cleaned, h1) = alloc (zeros_like (h ! mask_ref)) h;
                 h2 = worker_keep_loop labeled threshold mask_cleaned (enumerate 1 sizes) h1
             in (Inr mask_cleaned, (h2, lg))
           else (Inr mask_ref, (h, lg))))"

fun worker_fill_loop :: "nat \<Rightarrow> nat \<Rightarrow> nat list \<Rightarrow> heap \<times> progress_log \<Rightarrow> heap \<times> progress_log" where
  "worker_fill_loop mask_ref total_slices [] st = st"
| "worker_fill_loop mask_ref total_slices (z # zs) st =
     (case (if z mod 10 = 0
            then emit (80 + \<lfloor>(of_nat z / of_nat total_slices) * (15 :: rat)\<rfloor>)
                   (MsgFillHoles z total_slices) st
            else st) of
        (h, lg) \<Rightarrow>
          if np_any (get_slice (h ! mask_ref) z)
          then worker_fill_loop mask_ref total_slices zs
                 (h[mask_ref := set_slice (h ! mask_ref) z
                      (binary_fill_holes (fst (snd (shape (h ! mask_ref))), snd (snd (shape (h ! mask_ref))))
                         (get_slice (h ! mask_ref) z))], lg)
          else worker_fill_loop mask_ref total_slices zs (h, lg))"

definition worker_step4 ::
  "worker \<Rightarrow> nat \<Rightarrow> heap \<times> progress_log \<Rightarrow> (py_error + nat) \<times> (heap \<times> progress_log)" where
  "worker_step4 self mask_ref st =
     (if dict_get (fill_holes (self_params self)) False
      then (let total_slices = fst (shape (fst st ! mask_ref))
            in (Inr mask_ref, worker_fill_loop mask_ref total_slices [0..<total_slices] st))
      else (Inr mask_ref, st))"

definition worker_final_statistics ::
  "worker \<Rightarrow> int \<Rightarrow> nat \<Rightarrow> heap \<times> progress_log \<Rightarrow>
     (py_error + nat \<times> statistics) \<times> (heap \<times> progress_log)" where
  "worker_final_statistics self base_cnt mask_ref st =
     (case emit 95 MsgFinalize st of (h, lg) \<Rightarrow>
        let (out, h') = astype_uint8 mask_ref h;
            final_cnt = np_sum (h' ! out)
        in (case improvement_of base_cnt final_cnt of
              Inl e \<Rightarrow> (Inl e, (h', lg))
            | Inr improvement \<Rightarrow>
                let vol_ml = of_int final_cnt * np_prod (self_spacing self) / 1000
                in (Inr (out, \<lparr>base_count = base_cnt, steps = [],
                               final_count = final_cnt,
                               improvement_percent = improvement,
                               volume_ml = vol_ml, params = self_params self\<rparr>),
                    (h', lg))))"

definition refine_with_progress ::
  "worker \<Rightarrow> heap \<times> progress_log \<Rightarrow> (py_error + nat \<times> statistics) \<times> (heap \<times> progress_log)" where
  "refine_with_progress self st =
     (case st of (h, lg) \<Rightarrow>
      let (mask0, h0) = np_copy (self_base_mask self) h;
          base_cnt = np_sum (h0 ! mask0)
      in then_do (worker_step1 self mask0 (h0, lg)) (\<lambda>mask1 st1.
         then_do (worker_step2 self mask1 st1) (\<lambda>mask2 st2.
         then_do (worker_step3 mask2 st2) (\<lambda>mask3 st3.
         then_do (worker_step4 self mask3 st3) (\<lambda>mask4 st4.
           worker_final_statistics self base_cnt mask4 st4)))))"

section \<open>ROI combination: \<open>gui/widgets/roi_selector.py\<close>\<close>

text \<open>
  A stored ROI is the tuple \<open>(z_slice, y_min, y_max, x_min, x_max)\<close> of Python integers;
  note the setters take x before y and store y before x.
\<close>

type_synonym roi2d = "int \<times> int \<times> int \<times> int \<times> int"

record ROIManager =
  roi1_3d :: "roi2d option"
  roi2_3d :: "roi2d option"

definition init_roi_manager :: ROIManager where
  "init_roi_manager = \<lparr>roi1_3d = None, roi2_3d = None\<rparr>"

definition set_roi1 :: "int \<Rightarrow> int \<Rightarrow> int \<Rightarrow> int \<Rightarrow> int \<Rightarrow> ROIManager \<Rightarrow> ROIManager" where
  "set_roi1 z_slice x_min x_max y_min y_max m =
     m\<lparr>roi1_3d := Some (z_slice, y_min, y_max, x_min, x_max)\<rparr>"

definition set_roi2 :: "int \<Rightarrow> int \<Rightarrow> int \<Rightarrow> int \<Rightarrow> int \<Rightarrow> ROIManager \<Rightarrow> ROIManager" where
  "set_roi2 z_slice x_min x_max y_min y_max m =
     m\<lparr>roi2_3d := Some (z_slice, y_min, y_max, x_min, x_max)\<rparr>"

definition reset :: "ROIManager \<Rightarrow> ROIManager" where
  "reset m = m\<lparr>roi1_3d := None, roi2_3d := None\<rparr>"

definition has_both_rois :: "ROIManager \<Rightarrow> bool" where
  "has_both_rois m = (roi1_3d m \<noteq> None \<and> roi2_3d m \<noteq> None)"

text \<open>
  \<open>get_combined_roi_coords\<close>: union of the two rectangles, the two slice numbers as the
  z range, then one \<open>max\<close> against 0 for each lower bound and one \<open>min\<close> against
  \<open>dim - 1\<close> for each upper bound, exactly as the source writes them.
\<close>

definition get_combined_roi_coords ::
  "ROIManager \<Rightarrow> int \<times> int \<times> int \<Rightarrow> py_error + (int \<times> int \<times> int \<times> int \<times> int \<times> int)" where
  "get_combined_roi_coords m volume_shape =
     (case (roi1_3d m, roi2_3d m) of
        (Some (z1_slice, y1_0, y1_1, x1_0, x1_1), Some (z2_slice, y2_0, y2_1, x2_0, x2_1)) \<Rightarrow>
          (case volume_shape of (depth, height, width) \<Rightarrow>
             let x0 = min x1_0 x2_0;
                 x1 = max x1_1 x2_1;
                 y0 = min y1_0 y2_0;
                 y1 = max y1_1 y2_1;
                 z0 = min z1_slice z2_slice;
                 z1 = max z1_slice z2_slice;
                 z0 = max 0 z0;
                 z1 = min (depth - 1) z1;
                 y0 = max 0 y0;
                 y1 = min (height - 1) y1;
                 x0 = max 0 x0;
                 x1 = min (width - 1) x1
             in Inr (z0, z1, y0, y1, x0, x1))
      | _ \<Rightarrow> Inl ValueError)"

definition enc :: "nat \<Rightarrow> nat \<Rightarrow> nat \<Rightarrow> nat \<Rightarrow> nat \<Rightarrow> nat" where
  "enc h w z y x = (z * h + y) * w + x"

definition edges :: "(nat \<Rightarrow> nat list) \<Rightarrow> (nat \<Rightarrow> bool) \<Rightarrow> nat \<Rightarrow> (nat \<times> nat) set" where
  "edges nb ok n = {(u, v). u < n \<and> ok u \<and> v < n \<and> ok v \<and> v \<in> set (nb u)}"

definition adjacent :: "mask \<Rightarrow> (nat \<times> nat) set" where
  "adjacent m = edges (neighbours (shape m)) (foreground m) (numel (shape m))"

definition connected :: "mask \<Rightarrow> (nat \<times> nat) set" where
  "connected m = (adjacent m)\<^sup>*"

definition component :: "mask \<Rightarrow> nat \<Rightarrow> nat set" where
  "component m v = connected m `` {v}"

definition voxels :: "mask \<Rightarrow> nat set" where
  "voxels m = {v. v < numel (shape m) \<and> foreground m v}"

definition label_core :: "mask \<Rightarrow> nat list \<Rightarrow> nat \<Rightarrow> bool" where
  "label_core m labeled num \<longleftrightarrow>
     length labeled = numel (shape m) \<and>
     (\<forall>u < numel (shape m). labeled ! u \<noteq> 0 \<longrightarrow> foreground m u \<and> labeled ! u \<le> num) \<and>
     (\<forall>u < numel (shape m). \<forall>v. labeled ! u \<noteq> 0 \<longrightarrow> (u, v) \<in> connected m \<longrightarrow>
         labeled ! v = labeled ! u) \<and>
     (\<forall>u < numel (shape m). \<forall>v < numel (shape m). labeled ! u \<noteq> 0 \<longrightarrow>
         labeled ! u = labeled ! v \<longrightarrow> (u, v) \<in> connected m) \<and>
     (\<forall>l. 0 < l \<and> l \<le> num \<longrightarrow> (\<exists>u < numel (shape m). labeled ! u = l))"

definition label_inv :: "mask \<Rightarrow> nat set \<Rightarrow> nat list \<Rightarrow> nat \<Rightarrow> bool" where
  "label_inv m P labeled num \<longleftrightarrow>
     label_core m labeled num \<and>
     (\<forall>u \<in> P. u < numel (shape m) \<longrightarrow> foreground m u \<longrightarrow> labeled ! u \<noteq> 0)"

definition comp_size :: "mask \<Rightarrow> nat \<Rightarrow> nat" where
  "comp_size m u = (\<Sum>w \<in> component m u. data m ! w)"

definition max_comp_size :: "mask \<Rightarrow> nat" where
  "max_comp_size m = Max (comp_size m ` voxels m)"

definition kept :: "mask \<Rightarrow> rat \<Rightarrow> nat \<Rightarrow> bool" where
  "kept m ratio u \<longleftrightarrow> u \<in> voxels m \<and> of_nat (max_comp_size m) * ratio < (of_nat (comp_size m u) :: rat)"

definition cleaned :: "mask \<Rightarrow> rat \<Rightarrow> mask" where
  "cleaned m ratio =
     \<lparr>shape = shape m,
      data = map (\<lambda>u. if kept m ratio u then 1 else 0) [0..<numel (shape m)]\<rparr>"

definition label_sum :: "mask \<Rightarrow> nat list \<Rightarrow> nat \<Rightarrow> nat" where
  "label_sum m labeled i = sum_list (map (\<lambda>(l, x). if l = i then x else 0) (zip labeled (data m)))"

definition components :: "mask \<Rightarrow> nat set set" where
  "components m = component m ` voxels m"

definition csum :: "mask \<Rightarrow> nat set \<Rightarrow> nat" where
  "csum m C = (\<Sum>w \<in> C. data m ! w)"

definition kept_components :: "mask \<Rightarrow> rat \<Rightarrow> nat set set" where
  "kept_components m ratio =
     {C \<in> components m. of_nat (max_comp_size m) * ratio < (of_nat (csum m C) :: rat)}"

definition keep_data :: "nat list \<Rightarrow> rat \<Rightarrow> (nat \<times> rat) list \<Rightarrow> nat list \<Rightarrow> nat list" where
  "keep_data labeled thr es xs =
     map (\<lambda>j. if \<exists>(i, s) \<in> set es. thr < s \<and> labeled ! j = i then 1 else xs ! j)
       [0..<length labeled]"

definition rsc_stats :: "mask \<Rightarrow> rat \<Rightarrow> step_stats" where
  "rsc_stats m ratio =
     [(''voxels_before'', np_sum m),
      (''voxels_after'', np_sum (cleaned m ratio)),
      (''voxels_removed'', np_sum m - np_sum (cleaned m ratio)),
      (''components_total'', int (card (components m))),
      (''components_kept'', int (card (kept_components m ratio))),
      (''components_removed'', int (card (components m)) - int (card (kept_components m ratio)))]"

definition is_binary :: "mask \<Rightarrow> bool" where
  "is_binary m = list_all (\<lambda>x. x = 0 \<or> x = 1) (data m)"

definition frame :: "nat \<Rightarrow> heap \<Rightarrow> heap \<Rightarrow> bool" where
  "frame n h h' \<longleftrightarrow> length h \<le> length h' \<and> (\<forall>a < n. h' ! a = h ! a)"

definition res_ok :: "nat \<Rightarrow> heap \<Rightarrow> (py_error + nat \<times> 'x) \<times> heap \<Rightarrow> bool" where
  "res_ok n h res \<longleftrightarrow>
     frame n h (snd res) \<and>
     (\<forall>x. fst res = Inr x \<longrightarrow> n \<le> fst x \<and> fst x < length (snd res))"

definition grows :: "nat \<Rightarrow> heap \<Rightarrow> (py_error + nat \<times> 'x) \<times> heap \<Rightarrow> bool" where
  "grows m h res \<longleftrightarrow>
     (\<exists>e. res = (Inl e, h)) \<or> (\<exists>x. res = (Inr (m, x), h)) \<or>
     (\<exists>x r. res = (Inr (length h, x), h @ [r]))"

text \<open>
  Concrete inputs on which the theorems below are instantiated.
\<close>

definition demo_params :: params where
  "demo_params =
     \<lparr>hu_min = None, hu_max = None, dilation_iter = Some 0, closing_size = Some 1,
      fill_holes = Some False\<rparr>"

definition demo_volume :: volume where
  "demo_volume = \<lparr>shape = (1, 1, 2), data = [-700, 40]\<rparr>"

definition demo_heap :: heap where
  "demo_heap = [\<lparr>shape = (1, 1, 3), data = [1, 0, 1]\<rparr>]"

definition ring_heap :: heap where
  "ring_heap = [\<lparr>shape = (1, 3, 3), data = [1, 1, 1, 1, 0, 1, 1, 1, 1]\<rparr>]"

definition ring_volume :: volume where
  "ring_volume =
     \<lparr>shape = (1, 3, 3), data = [-700, -700, -700, -700, -700, -700, -700, -700, -700]\<rparr>"

definition fill_params :: params where
  "fill_params =
     \<lparr>hu_min = Some (-1000), hu_max = Some (-300), dilation_iter = Some 1,
      closing_size = Some 1, fill_holes = Some True\<rparr>"

section \<open>Properties of the operation gate\<close>

lemma current_state_set_widget_enabled [simp]:
  "current_state (set_widget_enabled n en m) = current_state m"
  by (simp add: set_widget_enabled_def split: option.splits)

lemma current_state_set_widgets [simp]:
  "current_state (set_widgets ps m) = current_state m"
  by (induction ps m rule: set_widgets.induct) simp_all

lemma state_callbacks_set_widget_enabled [simp]:
  "state_callbacks (set_widget_enabled n en m) = state_callbacks m"
  by (simp add: set_widget_enabled_def split: option.splits)

lemma state_callbacks_set_widgets [simp]:
  "state_callbacks (set_widgets ps m) = state_callbacks m"
  by (induction ps m rule: set_widgets.induct) simp_all

lemma current_state_apply_state [simp]:
  "current_state (apply_state m) = current_state m"
  by (simp add: apply_state_def Let_def set_initial_state_def set_roi1_defined_state_def
      set_volume_loaded_state_def set_roi_defined_state_def set_segmenting_state_def
      set_mask_ready_state_def set_refining_state_def set_saving_state_def
      set_refinement_params_enabled_def)

lemma current_state_transition_to [simp]:
  "current_state (transition_to s m) = s"
  by (simp add: transition_to_def Let_def split: option.splits)

text \<open>
  Claim C6 as the spec states it: the state type is exactly the eight states
  \<open>Initial, VolumeLoaded, Roi1Defined, RoiDefined, Segmenting, MaskReady, Refining, Saving\<close>
  and has no \<open>Roi2Defined\<close>. The enumeration of the source has a ninth member,
  \<open>ROI2_DEFINED\<close>, which is none of the eight.
\<close>

theorem C6_roi2_defined_is_a_state:
  "ROI2_DEFINED \<in> set UIState_members \<and>
   state_value ROI2_DEFINED = ''roi2_defined'' \<and>
   ROI2_DEFINED \<notin> {INITIAL, VOLUME_LOADED, ROI1_DEFINED, ROI_DEFINED, SEGMENTING,
                     MASK_READY, REFINING, SAVING}"
  by (simp add: UIState_members_def)

text \<open>
  Claim C6, amended: the state type is exactly the closed set of nine states
  \<open>INITIAL, VOLUME_LOADED, ROI1_DEFINED, ROI2_DEFINED, ROI_DEFINED, SEGMENTING, MASK_READY,
  REFINING, SAVING\<close>, pairwise different; \<open>ROI2_DEFINED\<close> is a member, and it is the one
  state for which \<open>_apply_state\<close> configures no widget.
\<close>

theorem C6_nine_states:
  "(UNIV :: UIState set) = set UIState_members \<and>
   distinct UIState_members \<and>
   length UIState_members = 9 \<and>
   distinct (map state_value UIState_members) \<and>
   apply_state (m\<lparr>current_state := ROI2_DEFINED\<rparr>) = m\<lparr>current_state := ROI2_DEFINED\<rparr>"
proof -
  have "s \<in> set UIState_members" for s
    by (cases s) (simp_all add: UIState_members_def)
  then have "(UNIV :: UIState set) = set UIState_members"
    by blast
  moreover have "distinct UIState_members" "length UIState_members = 9"
    "distinct (map state_value UIState_members)"
    by (simp_all add: UIState_members_def)
  moreover have "apply_state (m\<lparr>current_state := ROI2_DEFINED\<rparr>) = m\<lparr>current_state := ROI2_DEFINED\<rparr>"
    by (simp add: apply_state_def)
  ultimately show ?thesis
    by blast
qed

text \<open>
  Claim C7: each capability predicate is a function of the current state alone, with
  the truth sets of the spec: \<open>can_load_dicom\<close> holds in every state except
  \<open>SEGMENTING\<close>, \<open>REFINING\<close>, \<open>SAVING\<close>; \<open>can_segment\<close> holds only in \<open>ROI_DEFINED\<close> and
  \<open>MASK_READY\<close>; \<open>can_refine\<close> and \<open>can_save\<close> hold only in \<open>MASK_READY\<close>. Hence a fresh
  manager cannot segment, any manager can segment after \<open>transition_to ROI_DEFINED\<close>, and
  no manager can load after \<open>transition_to SEGMENTING\<close>.
\<close>

theorem C7_capability_predicates:
  "can_load_dicom m = (current_state m \<notin> {SEGMENTING, REFINING, SAVING}) \<and>
   can_segment m = (current_state m \<in> {ROI_DEFINED, MASK_READY}) \<and>
   can_refine m = (current_state m = MASK_READY) \<and>
   can_save m = (current_state m = MASK_READY) \<and>
   {s. can_load_dicom (m\<lparr>current_state := s\<rparr>)} =
      {INITIAL, VOLUME_LOADED, ROI1_DEFINED, ROI2_DEFINED, ROI_DEFINED, MASK_READY} \<and>
   current_state init_manager = INITIAL \<and>
   \<not> can_segment init_manager \<and>
   can_segment (transition_to ROI_DEFINED m) \<and>
   \<not> can_load_dicom (transition_to SEGMENTING m)"
proof -
  have "{s. can_load_dicom (m\<lparr>current_state := s\<rparr>)} =
      {INITIAL, VOLUME_LOADED, ROI1_DEFINED, ROI2_DEFINED, ROI_DEFINED, MASK_READY}"
  proof (rule set_eqI)
    fix s show "s \<in> {s. can_load_dicom (m\<lparr>current_state := s\<rparr>)} \<longleftrightarrow>
      s \<in> {INITIAL, VOLUME_LOADED, ROI1_DEFINED, ROI2_DEFINED, ROI_DEFINED, MASK_READY}"
      by (cases s) (simp_all add: can_load_dicom_def)
  qed
  then show ?thesis
    by (simp add: can_load_dicom_def can_segment_def can_refine_def can_save_def
        init_manager_def)
qed

text \<open>
  A witness for C7 at a concrete manager: one registered button and a callback for
  \<open>ROI_DEFINED\<close>.
\<close>

theorem C7_capability_predicates_witness:
  "can_segment (transition_to ROI_DEFINED
      (register_state_callback ROI_DEFINED 7
         (register_widgets [''btn_segment'' \<mapsto> \<lparr>has_setEnabled = True, enabled = False\<rparr>]
            init_manager))) \<and>
   \<not> can_load_dicom (transition_to SEGMENTING init_manager)"
  using C7_capability_predicates [of "register_state_callback ROI_DEFINED 7
         (register_widgets [''btn_segment'' \<mapsto> \<lparr>has_setEnabled = True, enabled = False\<rparr>]
            init_manager)"]
    C7_capability_predicates [of init_manager]
  by blast

section \<open>Properties of the ROI combination\<close>

text \<open>
  Claim C1 requires \<open>0 \<le> x0 \<le> x1 \<le> width - 1\<close> (and likewise for z and y) for every pair
  of stored ROIs. Two rectangles drawn at x from 200 to 300 on a volume of shape
  \<open>(50, 100, 100)\<close> give \<open>x0 = 200\<close> and \<open>x1 = 99\<close>: the lower bound is only ever raised to
  0 and the upper bound only ever lowered to \<open>width - 1\<close>.
\<close>

theorem C1_box_outside_volume:
  "get_combined_roi_coords
     (set_roi2 0 200 300 0 10 (set_roi1 0 200 300 0 10 init_roi_manager)) (50, 100, 100)
   = Inr (0, 0, 0, 10, 200, 99)"
  by (simp add: get_combined_roi_coords_def set_roi1_def set_roi2_def init_roi_manager_def)

text \<open>
  When the union of the two rectangles meets the volume on every axis, the bounds of
  claim C1 do hold.
\<close>

lemma combined_roi_in_bounds_when_overlapping:
  assumes "roi1_3d m = Some (za, ya0, ya1, xa0, xa1)"
    and "roi2_3d m = Some (zb, yb0, yb1, xb0, xb1)"
    and "0 < depth" "0 < height" "0 < width"
    and "min za zb \<le> depth - 1" "0 \<le> max za zb"
    and "min ya0 yb0 \<le> height - 1" "0 \<le> max ya1 yb1" "min ya0 yb0 \<le> max ya1 yb1"
    and "min xa0 xb0 \<le> width - 1" "0 \<le> max xa1 xb1" "min xa0 xb0 \<le> max xa1 xb1"
    and "get_combined_roi_coords m (depth, height, width) = Inr (z0, z1, y0, y1, x0, x1)"
  shows "0 \<le> z0 \<and> z0 \<le> z1 \<and> z1 \<le> depth - 1 \<and>
         0 \<le> y0 \<and> y0 \<le> y1 \<and> y1 \<le> height - 1 \<and>
         0 \<le> x0 \<and> x0 \<le> x1 \<and> x1 \<le> width - 1"
proof -
  have z: "z0 = max 0 (min za zb)" "z1 = min (depth - 1) (max za zb)"
    and y: "y0 = max 0 (min ya0 yb0)" "y1 = min (height - 1) (max ya1 yb1)"
    and x: "x0 = max 0 (min xa0 xb0)" "x1 = min (width - 1) (max xa1 xb1)"
    using assms(1,2,14) by (simp_all add: get_combined_roi_coords_def Let_def)
  from assms(3,6,7) have "0 \<le> z0 \<and> z0 \<le> z1 \<and> z1 \<le> depth - 1"
    unfolding z by auto
  moreover from assms(4,8-10) have "0 \<le> y0 \<and> y0 \<le> y1 \<and> y1 \<le> height - 1"
    unfolding y by auto
  moreover from assms(5,11-13) have "0 \<le> x0 \<and> x0 \<le> x1 \<and> x1 \<le> width - 1"
    unfolding x by auto
  ultimately show ?thesis
    by blast
qed

lemma enc_mod: "x < w \<Longrightarrow> enc h w z y x mod w = x"
  by (simp add: enc_def)

lemma enc_div: "x < w \<Longrightarrow> enc h w z y x div w = z * h + y"
  by (simp add: enc_def)

lemma enc_y: "x < w \<Longrightarrow> y < h \<Longrightarrow> (enc h w z y x div w) mod h = y"
  by (simp add: enc_div)

lemma enc_z: "x < w \<Longrightarrow> y < h \<Longrightarrow> enc h w z y x div (h * w) = z"
proof -
  assume a: "x < w" "y < h"
  have "enc h w z y x div (h * w) = enc h w z y x div (w * h)"
    by (simp add: mult.commute)
  also have "\<dots> = (enc h w z y x div w) div h"
    by (simp add: div_mult2_eq)
  also have "\<dots> = z"
    using a by (simp add: enc_div)
  finally show ?thesis .
qed

lemma enc_decompose: "i = enc h w (i div (h * w)) ((i div w) mod h) (i mod w)"
proof -
  have "i div (h * w) = i div (w * h)"
    by (simp add: mult.commute)
  also have "\<dots> = (i div w) div h"
    by (rule div_mult2_eq)
  finally show ?thesis
    by (simp add: enc_def)
qed

lemma enc_less: "z < d \<Longrightarrow> y < h \<Longrightarrow> x < w \<Longrightarrow> enc h w z y x < d * h * w"
proof -
  assume a: "z < d" "y < h" "x < w"
  have "enc h w z y x < (z * h + y) * w + w"
    using a by (simp add: enc_def)
  also have "\<dots> = (z * h + y + 1) * w"
    by (simp add: algebra_simps)
  also have "\<dots> \<le> (z * h + h) * w"
    using a by (intro mult_le_mono1) simp
  also have "\<dots> = (z + 1) * (h * w)"
    by (simp add: algebra_simps)
  also have "\<dots> \<le> d * (h * w)"
    using a by (intro mult_le_mono1) simp
  finally show ?thesis by (simp add: mult.assoc)
qed

lemma coords_in_range:
  assumes "(i::nat) < d * h * w"
  shows "i div (h * w) < d" "(i div w) mod h < h" "i mod w < w"
proof -
  from assms have "0 < h" "0 < w" by (cases h; cases w; simp)+
  then show "(i div w) mod h < h" "i mod w < w" by simp_all
  from assms show "i div (h * w) < d"
    by (simp add: less_mult_imp_div_less mult.assoc)
qed

lemma neighbours_enc:
  assumes "y < h" "x < w"
  shows "neighbours (d, h, w) (enc h w z y x) =
     (if 0 < z then [enc h w (z - 1) y x] else []) @
     (if Suc z < d then [enc h w (Suc z) y x] else []) @
     (if 0 < y then [enc h w z (y - 1) x] else []) @
     (if Suc y < h then [enc h w z (Suc y) x] else []) @
     (if 0 < x then [enc h w z y (x - 1)] else []) @
     (if Suc x < w then [enc h w z y (Suc x)] else [])"
proof -
  have 1: "0 < z \<Longrightarrow> enc h w z y x - h * w = enc h w (z - 1) y x"
    by (cases z) (simp_all add: enc_def algebra_simps)
  have 2: "enc h w z y x + h * w = enc h w (Suc z) y x"
    by (simp add: enc_def algebra_simps)
  have 3: "0 < y \<Longrightarrow> enc h w z y x - w = enc h w z (y - 1) x"
    by (cases y) (simp_all add: enc_def algebra_simps)
  have 4: "enc h w z y x + w = enc h w z (Suc y) x"
    by (simp add: enc_def algebra_simps)
  have 5: "0 < x \<Longrightarrow> enc h w z y x - Suc 0 = enc h w z y (x - 1)"
    by (cases x) (simp_all add: enc_def algebra_simps)
  have 6: "Suc (enc h w z y x) = enc h w z y (Suc x)"
    by (simp add: enc_def)
  show ?thesis
    unfolding neighbours_def
    by (simp add: Let_def enc_z enc_y enc_mod assms 1 2 3 4 5 6 cong: if_cong)
qed

lemma neighbours_sound:
  assumes "i < numel sh" "j \<in> set (neighbours sh i)"
  shows "j < numel sh \<and> i \<in> set (neighbours sh j)"
proof -
  obtain d h w where sh: "sh = (d, h, w)" by (cases sh) auto
  define z y x where "z = i div (h * w)" and "y = (i div w) mod h" and "x = i mod w"
  have i: "i = enc h w z y x"
    unfolding z_def y_def x_def by (rule enc_decompose)
  from assms(1) have r: "z < d" "y < h" "x < w"
    unfolding z_def y_def x_def sh numel_def by (simp_all add: coords_in_range)
  from assms(2) have "j \<in> set (neighbours (d, h, w) (enc h w z y x))"
    by (simp add: sh i)
  then consider
      "0 < z" "j = enc h w (z - 1) y x" | "Suc z < d" "j = enc h w (Suc z) y x"
    | "0 < y" "j = enc h w z (y - 1) x" | "Suc y < h" "j = enc h w z (Suc y) x"
    | "0 < x" "j = enc h w z y (x - 1)" | "Suc x < w" "j = enc h w z y (Suc x)"
    unfolding neighbours_enc [OF r(2,3)] by (auto split: if_splits)
  then show ?thesis
  proof cases
    case 1
    then show ?thesis using r by (simp add: sh numel_def i enc_less neighbours_enc)
  next
    case 2
    then show ?thesis using r by (simp add: sh numel_def i enc_less neighbours_enc)
  next
    case 3
    then show ?thesis using r by (simp add: sh numel_def i enc_less neighbours_enc)
  next
    case 4
    then show ?thesis using r by (simp add: sh numel_def i enc_less neighbours_enc)
  next
    case 5
    then show ?thesis using r by (simp add: sh numel_def i enc_less neighbours_enc)
  next
    case 6
    then show ?thesis using r by (simp add: sh numel_def i enc_less neighbours_enc)
  qed
qed

lemma flood_sound:
  "set (flood nb ok n stack visited) \<subseteq>
     set visited \<union> (edges nb ok n)\<^sup>* `` {w \<in> set stack. w < n \<and> ok w}"
proof (induction nb ok n stack visited rule: flood.induct)
  case (1 nb ok n visited)
  then show ?case by simp
next
  case (2 nb ok n v stack visited)
  let ?E = "edges nb ok n"
  show ?case
  proof (cases "v < n \<and> ok v \<and> v \<notin> set visited")
    case True
    have "set (flood nb ok n (nb v @ stack) (v # visited)) \<subseteq>
            set (v # visited) \<union> ?E\<^sup>* `` {w \<in> set (nb v @ stack). w < n \<and> ok w}"
      using 2(1) True by simp
    moreover have "?E\<^sup>* `` {w \<in> set (nb v @ stack). w < n \<and> ok w} \<subseteq>
            ?E\<^sup>* `` {w \<in> set (v # stack). w < n \<and> ok w}"
    proof
      fix x assume "x \<in> ?E\<^sup>* `` {w \<in> set (nb v @ stack). w < n \<and> ok w}"
      then obtain w where w: "w \<in> set (nb v @ stack)" "w < n" "ok w" "(w, x) \<in> ?E\<^sup>*"
        by blast
      show "x \<in> ?E\<^sup>* `` {w \<in> set (v # stack). w < n \<and> ok w}"
      proof (cases "w \<in> set stack")
        case True
        with w show ?thesis by auto
      next
        case False
        with w have "w \<in> set (nb v)" by simp
        with w True have "(v, w) \<in> ?E"
          by (simp add: edges_def)
        with w have "(v, x) \<in> ?E\<^sup>*"
          by (meson converse_rtrancl_into_rtrancl)
        with True show ?thesis by auto
      qed
    qed
    moreover have "v \<in> ?E\<^sup>* `` {w \<in> set (v # stack). w < n \<and> ok w}"
      using True by auto
    ultimately show ?thesis
      using True by auto
  next
    case False
    then have "set (flood nb ok n (v # stack) visited) = set (flood nb ok n stack visited)"
      by auto
    moreover have "set (flood nb ok n stack visited) \<subseteq>
            set visited \<union> ?E\<^sup>* `` {w \<in> set stack. w < n \<and> ok w}"
      using 2(2) False by blast
    ultimately show ?thesis
      by auto
  qed
qed

lemma flood_closed:
  "set visited \<subseteq> set (flood nb ok n stack visited) \<and>
   {w \<in> set stack. w < n \<and> ok w} \<subseteq> set (flood nb ok n stack visited) \<and>
   (\<forall>u x. u \<in> set (flood nb ok n stack visited) \<longrightarrow> u \<notin> set visited \<longrightarrow>
          (u, x) \<in> edges nb ok n \<longrightarrow> x \<in> set (flood nb ok n stack visited))"
proof (induction nb ok n stack visited rule: flood.induct)
  case (1 nb ok n visited)
  then show ?case by simp
next
  case (2 nb ok n v stack visited)
  show ?case
  proof (cases "v < n \<and> ok v \<and> v \<notin> set visited")
    case True
    let ?R = "set (flood nb ok n (nb v @ stack) (v # visited))"
    have eq: "set (flood nb ok n (v # stack) visited) = ?R"
      using True by simp
    have ih: "set (v # visited) \<subseteq> ?R" "{w \<in> set (nb v @ stack). w < n \<and> ok w} \<subseteq> ?R"
      "\<And>u x. u \<in> ?R \<Longrightarrow> u \<notin> set (v # visited) \<Longrightarrow> (u, x) \<in> edges nb ok n \<Longrightarrow> x \<in> ?R"
      using 2(1) True by blast+
    have "x \<in> ?R" if "u \<in> ?R" "u \<notin> set visited" "(u, x) \<in> edges nb ok n" for u x
    proof (cases "u = v")
      case True
      with that(3) have "x \<in> set (nb v)" "x < n" "ok x"
        by (simp_all add: edges_def)
      with ih(2) show ?thesis by auto
    next
      case False
      with that ih(3) show ?thesis by auto
    qed
    with ih(1,2) show ?thesis
      unfolding eq by auto
  next
    case False
    let ?R = "set (flood nb ok n stack visited)"
    have eq: "set (flood nb ok n (v # stack) visited) = ?R"
      using False by auto
    have ih: "set visited \<subseteq> ?R" "{w \<in> set stack. w < n \<and> ok w} \<subseteq> ?R"
      "\<And>u x. u \<in> ?R \<Longrightarrow> u \<notin> set visited \<Longrightarrow> (u, x) \<in> edges nb ok n \<Longrightarrow> x \<in> ?R"
      using 2(2) False by blast+
    from False ih(1,2) have "{w \<in> set (v # stack). w < n \<and> ok w} \<subseteq> ?R"
      by auto
    with ih(1,3) show ?thesis
      unfolding eq by blast
  qed
qed

lemma flood_reach:
  "set (flood nb ok n stack []) = (edges nb ok n)\<^sup>* `` {w \<in> set stack. w < n \<and> ok w}"
proof
  show "set (flood nb ok n stack []) \<subseteq> (edges nb ok n)\<^sup>* `` {w \<in> set stack. w < n \<and> ok w}"
    using flood_sound [of nb ok n stack "[]"] by simp
  have "x \<in> set (flood nb ok n stack [])"
    if "(w, x) \<in> (edges nb ok n)\<^sup>*" "w \<in> set stack" "w < n" "ok w" for w x
    using that
  proof (induction rule: rtrancl_induct)
    case base
    then show ?case using flood_closed [of "[]" nb ok n stack] by auto
  next
    case (step y z)
    then show ?case using flood_closed [of "[]" nb ok n stack] by auto
  qed
  then show "(edges nb ok n)\<^sup>* `` {w \<in> set stack. w < n \<and> ok w} \<subseteq> set (flood nb ok n stack [])"
    by auto
qed

lemma flood_distinct: "distinct visited \<Longrightarrow> distinct (flood nb ok n stack visited)"
  by (induction nb ok n stack visited rule: flood.induct) auto

declare flood.simps [simp del]

lemma adjacent_sym: "(u, v) \<in> adjacent m \<Longrightarrow> (v, u) \<in> adjacent m"
  using neighbours_sound [of u "shape m" v]
  by (auto simp: adjacent_def edges_def)

lemma adjacent_voxels: "(u, v) \<in> adjacent m \<Longrightarrow> u \<in> voxels m \<and> v \<in> voxels m"
  by (auto simp: adjacent_def edges_def voxels_def)

lemma connected_refl [simp]: "(u, u) \<in> connected m"
  by (simp add: connected_def)

lemma connected_sym: "(u, v) \<in> connected m \<Longrightarrow> (v, u) \<in> connected m"
proof -
  have "sym (adjacent m)"
    by (auto intro: symI adjacent_sym)
  then have "sym ((adjacent m)\<^sup>*)"
    by (rule sym_rtrancl)
  then show "(u, v) \<in> connected m \<Longrightarrow> (v, u) \<in> connected m"
    unfolding connected_def by (auto dest: symD)
qed

lemma connected_trans: "(u, v) \<in> connected m \<Longrightarrow> (v, w) \<in> connected m \<Longrightarrow> (u, w) \<in> connected m"
  unfolding connected_def by (rule rtrancl_trans)

lemma connected_voxels: "(u, v) \<in> connected m \<Longrightarrow> u \<in> voxels m \<Longrightarrow> v \<in> voxels m"
  unfolding connected_def
  by (induction rule: rtrancl_induct) (auto dest: adjacent_voxels)

lemma connected_voxels_or_eq: "(u, v) \<in> connected m \<Longrightarrow> u = v \<or> (u \<in> voxels m \<and> v \<in> voxels m)"
  unfolding connected_def
  by (induction rule: rtrancl_induct) (auto dest: adjacent_voxels)

lemma component_self [simp]: "v \<in> component m v"
  by (simp add: component_def)

lemma component_subset_voxels: "v \<in> voxels m \<Longrightarrow> component m v \<subseteq> voxels m"
  by (auto simp: component_def dest: connected_voxels)

lemma component_eq:
  assumes "(u, v) \<in> connected m"
  shows "component m u = component m v"
proof -
  from assms have "(v, u) \<in> connected m"
    by (rule connected_sym)
  with assms show ?thesis
    unfolding component_def by (blast intro: connected_trans)
qed

lemma finite_voxels [simp]: "finite (voxels m)"
  by (simp add: voxels_def)

lemma finite_component: "v \<in> voxels m \<Longrightarrow> finite (component m v)"
  by (meson component_subset_voxels finite_subset finite_voxels)

lemma flood_component:
  assumes "v \<in> voxels m"
  shows "set (flood (neighbours (shape m)) (foreground m) (numel (shape m)) [v] []) = component m v"
proof -
  from assms have "{w \<in> set [v]. w < numel (shape m) \<and> foreground m w} = {v}"
    by (auto simp: voxels_def)
  then show ?thesis
    by (simp add: flood_reach component_def connected_def adjacent_def)
qed

lemma length_paint [simp]: "length (paint vs l labeled) = length labeled"
  unfolding paint_def by (induction vs arbitrary: labeled) simp_all

lemma nth_paint:
  "u < length labeled \<Longrightarrow> paint vs l labeled ! u = (if u \<in> set vs then l else labeled ! u)"
  unfolding paint_def
proof (induction vs arbitrary: labeled)
  case Nil
  then show ?case by simp
next
  case (Cons a vs)
  then show ?case
    by (cases "a < length labeled") (auto simp: nth_list_update)
qed

lemma label_inv_init: "label_inv m {} (replicate (numel (shape m)) 0) 0"
  by (simp add: label_inv_def label_core_def)

lemma label_inv_skip:
  assumes "label_inv m P labeled num" "\<not> (foreground m v \<and> labeled ! v = 0)"
  shows "label_inv m (insert v P) labeled num"
  using assms unfolding label_inv_def by auto

lemma label_inv_paint:
  assumes inv: "label_inv m P labeled num"
    and v: "v < numel (shape m)" "foreground m v" "labeled ! v = 0"
  shows "label_inv m (insert v P)
           (paint (flood (neighbours (shape m)) (foreground m) (numel (shape m)) [v] [])
              (Suc num) labeled) (Suc num)"
proof -
  let ?n = "numel (shape m)"
  let ?C = "component m v"
  let ?lab = "paint (flood (neighbours (shape m)) (foreground m) ?n [v] []) (Suc num) labeled"
  from v have vv: "v \<in> voxels m"
    by (simp add: voxels_def)
  have len: "length labeled = ?n"
    and i2: "\<And>u. u < ?n \<Longrightarrow> labeled ! u \<noteq> 0 \<Longrightarrow> foreground m u \<and> labeled ! u \<le> num"
    and i3: "\<And>u w. u < ?n \<Longrightarrow> labeled ! u \<noteq> 0 \<Longrightarrow> (u, w) \<in> connected m \<Longrightarrow> labeled ! w = labeled ! u"
    and i4: "\<And>u w. u < ?n \<Longrightarrow> w < ?n \<Longrightarrow> labeled ! u \<noteq> 0 \<Longrightarrow> labeled ! u = labeled ! w \<Longrightarrow>
                (u, w) \<in> connected m"
    and i5: "\<And>l. 0 < l \<Longrightarrow> l \<le> num \<Longrightarrow> \<exists>u < ?n. labeled ! u = l"
    and i6: "\<And>u. u \<in> P \<Longrightarrow> u < ?n \<Longrightarrow> foreground m u \<Longrightarrow> labeled ! u \<noteq> 0"
    using inv unfolding label_inv_def label_core_def by blast+
  have nth: "?lab ! u = (if u \<in> ?C then Suc num else labeled ! u)" if "u < ?n" for u
    using that len by (simp add: nth_paint flood_component [OF vv])
  have Cvox: "?C \<subseteq> voxels m"
    using vv by (rule component_subset_voxels)
  have Cn: "u < ?n" "foreground m u" if "u \<in> ?C" for u
    using that Cvox by (auto simp: voxels_def)
  have Czero: "labeled ! u = 0" if "u \<in> ?C" for u
  proof (rule ccontr)
    assume "labeled ! u \<noteq> 0"
    moreover from that have "(u, v) \<in> connected m"
      by (simp add: component_def connected_sym)
    ultimately have "labeled ! v = labeled ! u"
      using i3 [of u v] Cn(1) [OF that] by simp
    with v(3) \<open>labeled ! u \<noteq> 0\<close> show False by simp
  qed
  have Cclosed: "w \<in> ?C" if "u \<in> ?C" "(u, w) \<in> connected m" for u w
    using that by (auto simp: component_def intro: connected_trans)
  have Cclosed': "u \<in> ?C" if "w \<in> ?C" "(u, w) \<in> connected m" for u w
    using that Cclosed connected_sym by blast
  have n2: "foreground m u \<and> ?lab ! u \<le> Suc num" if "u < ?n" "?lab ! u \<noteq> 0" for u
    using that i2 [of u] Cn [of u] by (auto simp: nth split: if_splits)
  have n3: "?lab ! w = ?lab ! u" if "u < ?n" "?lab ! u \<noteq> 0" "(u, w) \<in> connected m" for u w
  proof (cases "u \<in> ?C")
    case True
    then have "w \<in> ?C" using that(3) by (rule Cclosed)
    with True that(1) Cn(1) show ?thesis by (simp add: nth)
  next
    case False
    with that have nz: "labeled ! u \<noteq> 0" by (simp add: nth)
    from False that(3) have wC: "w \<notin> ?C" using Cclosed' by blast
    from that(3) have "w = u \<or> w \<in> voxels m"
      using connected_voxels_or_eq by blast
    then have "w < ?n" using that(1) by (auto simp: voxels_def)
    with wC False that(1) i3 [OF that(1) nz that(3)] show ?thesis by (simp add: nth)
  qed
  have n4: "(u, w) \<in> connected m"
    if "u < ?n" "w < ?n" "?lab ! u \<noteq> 0" "?lab ! u = ?lab ! w" for u w
  proof (cases "u \<in> ?C")
    case True
    have "w \<in> ?C"
    proof (rule ccontr)
      assume "w \<notin> ?C"
      with that True have "labeled ! w = Suc num" by (simp add: nth)
      with i2 [of w] that(2) show False by simp
    qed
    with True have "(v, u) \<in> connected m" "(v, w) \<in> connected m"
      by (simp_all add: component_def)
    then show ?thesis
      by (meson connected_sym connected_trans)
  next
    case False
    with that have nz: "labeled ! u \<noteq> 0" and eq: "labeled ! u = ?lab ! w" by (simp_all add: nth)
    have "w \<notin> ?C"
    proof
      assume "w \<in> ?C"
      with that(2) eq have "labeled ! u = Suc num" by (simp add: nth)
      with i2 [OF that(1) nz] show False by simp
    qed
    with eq that(2) have "labeled ! u = labeled ! w" by (simp add: nth)
    with i4 [OF that(1,2) nz] show ?thesis by simp
  qed
  have n5: "\<exists>u < ?n. ?lab ! u = l" if "0 < l" "l \<le> Suc num" for l
  proof (cases "l = Suc num")
    case True
    with v(1) show ?thesis by (auto simp: nth intro!: exI [of _ v])
  next
    case False
    with that obtain u where u: "u < ?n" "labeled ! u = l" using i5 [of l] by auto
    with that(1) have "u \<notin> ?C" using Czero by auto
    with u show ?thesis by (auto simp: nth intro!: exI [of _ u])
  qed
  have n6: "?lab ! u \<noteq> 0" if "u \<in> insert v P" "u < ?n" "foreground m u" for u
    using that i6 [of u] by (auto simp: nth)
  show ?thesis
    unfolding label_inv_def label_core_def
  proof (intro conjI)
    show "length ?lab = ?n" using len by simp
    show "\<forall>u < ?n. ?lab ! u \<noteq> 0 \<longrightarrow> foreground m u \<and> ?lab ! u \<le> Suc num"
      using n2 by blast
    show "\<forall>u < ?n. \<forall>w. ?lab ! u \<noteq> 0 \<longrightarrow> (u, w) \<in> connected m \<longrightarrow> ?lab ! w = ?lab ! u"
      using n3 by blast
    show "\<forall>u < ?n. \<forall>w < ?n. ?lab ! u \<noteq> 0 \<longrightarrow> ?lab ! u = ?lab ! w \<longrightarrow> (u, w) \<in> connected m"
      using n4 by blast
    show "\<forall>l. 0 < l \<and> l \<le> Suc num \<longrightarrow> (\<exists>u < ?n. ?lab ! u = l)"
      using n5 by blast
    show "\<forall>u \<in> insert v P. u < ?n \<longrightarrow> foreground m u \<longrightarrow> ?lab ! u \<noteq> 0"
      using n6 by blast
  qed
qed

lemma label_loop_inv:
  assumes "label_inv m P labeled num" "set vs \<subseteq> {..<numel (shape m)}"
    and "label_loop m vs (labeled, num) = (labeled', num')"
  shows "label_inv m (P \<union> set vs) labeled' num'"
  using assms
proof (induction vs arbitrary: P labeled num)
  case Nil
  then show ?case by simp
next
  case (Cons v vs)
  show ?case
  proof (cases "foreground m v \<and> labeled ! v = 0")
    case True
    let ?lab = "paint (flood (neighbours (shape m)) (foreground m) (numel (shape m)) [v] [])
                  (Suc num) labeled"
    from Cons.prems True have "label_inv m (insert v P) ?lab (Suc num)"
      by (intro label_inv_paint) auto
    moreover from Cons.prems True have "label_loop m vs (?lab, Suc num) = (labeled', num')"
      by simp
    ultimately have "label_inv m (insert v P \<union> set vs) labeled' num'"
      using Cons.prems(2) by (intro Cons.IH) auto
    then show ?thesis by simp
  next
    case False
    with Cons.prems have "label_inv m (insert v P) labeled num"
      by (intro label_inv_skip) auto
    moreover from Cons.prems False have "label_loop m vs (labeled, num) = (labeled', num')"
      by auto
    ultimately have "label_inv m (insert v P \<union> set vs) labeled' num'"
      using Cons.prems(2) by (intro Cons.IH) auto
    then show ?thesis by simp
  qed
qed

lemma label_correct:
  assumes "label m = (labeled, num)"
  shows "label_inv m {..<numel (shape m)} labeled num"
proof -
  have "label_inv m ({} \<union> set [0..<numel (shape m)]) labeled num"
    using assms unfolding label_def
    by (intro label_loop_inv [OF label_inv_init]) auto
  then show ?thesis
    by (simp add: lessThan_atLeast0)
qed

lemma ndimage_sum_label_sum:
  "ndimage_sum m labeled index = map (\<lambda>i. of_nat (label_sum m labeled i)) index"
  by (simp add: ndimage_sum_def label_sum_def)

lemma label_sum_eq:
  assumes "length labeled = length (data m)"
  shows "label_sum m labeled i = (\<Sum>j | j < length (data m) \<and> labeled ! j = i. data m ! j)"
proof -
  let ?f = "\<lambda>(l, x). if l = i then x else (0::nat)"
  have "label_sum m labeled i = (\<Sum>j = 0..<length (data m). map ?f (zip labeled (data m)) ! j)"
    unfolding label_sum_def using assms by (simp add: sum_list_sum_nth)
  also have "\<dots> = (\<Sum>j = 0..<length (data m). if labeled ! j = i then data m ! j else 0)"
    using assms by (intro sum.cong) simp_all
  also have "\<dots> = (\<Sum>j \<in> {j \<in> {0..<length (data m)}. labeled ! j = i}. data m ! j)"
    by (rule sum.inter_filter [symmetric]) simp
  also have "{j \<in> {0..<length (data m)}. labeled ! j = i} = {j. j < length (data m) \<and> labeled ! j = i}"
    by auto
  finally show ?thesis .
qed

text \<open>What the labelling of a well-formed mask gives.\<close>

lemma label_facts:
  assumes "label m = (labeled, num)"
  shows "length labeled = numel (shape m)"
    and "\<And>u. u < numel (shape m) \<Longrightarrow> labeled ! u \<noteq> 0 \<longleftrightarrow> foreground m u"
    and "\<And>u. u < numel (shape m) \<Longrightarrow> labeled ! u \<le> num"
    and "\<And>u. u \<in> voxels m \<Longrightarrow> {w. w < numel (shape m) \<and> labeled ! w = labeled ! u} = component m u"
    and "\<And>l. 0 < l \<Longrightarrow> l \<le> num \<Longrightarrow> \<exists>u \<in> voxels m. labeled ! u = l"
proof -
  let ?n = "numel (shape m)"
  have inv: "label_inv m {..<?n} labeled num"
    using assms by (rule label_correct)
  then have core: "label_core m labeled num"
    by (simp add: label_inv_def)
  have all: "labeled ! u \<noteq> 0" if "u < ?n" "foreground m u" for u
    using inv that by (simp add: label_inv_def)
  from core show len: "length labeled = ?n"
    by (simp add: label_core_def)
  have c2: "foreground m u \<and> labeled ! u \<le> num" if "u < ?n" "labeled ! u \<noteq> 0" for u
    using core that unfolding label_core_def by blast
  have c3: "labeled ! v = labeled ! u" if "u < ?n" "labeled ! u \<noteq> 0" "(u, v) \<in> connected m" for u v
    using core that unfolding label_core_def by blast
  have c4: "(u, v) \<in> connected m"
    if "u < ?n" "v < ?n" "labeled ! u \<noteq> 0" "labeled ! u = labeled ! v" for u v
    using core that unfolding label_core_def by blast
  have c5: "\<exists>u < ?n. labeled ! u = l" if "0 < l" "l \<le> num" for l
    using core that unfolding label_core_def by blast
  show nz: "labeled ! u \<noteq> 0 \<longleftrightarrow> foreground m u" if "u < ?n" for u
    using that c2 [of u] all [of u] by blast
  show "labeled ! u \<le> num" if "u < ?n" for u
    using that c2 [of u] by (cases "labeled ! u = 0") auto
  show "{w. w < ?n \<and> labeled ! w = labeled ! u} = component m u" if "u \<in> voxels m" for u
  proof -
    from that have u: "u < ?n" "labeled ! u \<noteq> 0"
      using nz by (auto simp: voxels_def)
    show ?thesis
    proof (intro set_eqI iffI)
      fix w assume "w \<in> {w. w < ?n \<and> labeled ! w = labeled ! u}"
      then have "w < ?n" "labeled ! u = labeled ! w"
        by simp_all
      then have "(u, w) \<in> connected m"
        using u by (intro c4)
      then show "w \<in> component m u"
        by (simp add: component_def)
    next
      fix w assume w: "w \<in> component m u"
      then have "(u, w) \<in> connected m"
        by (simp add: component_def)
      then have "labeled ! w = labeled ! u"
        using u by (intro c3)
      moreover from w that have "w \<in> voxels m"
        using component_subset_voxels by blast
      ultimately show "w \<in> {w. w < ?n \<and> labeled ! w = labeled ! u}"
        by (simp add: voxels_def)
    qed
  qed
  show "\<exists>u \<in> voxels m. labeled ! u = l" if "0 < l" "l \<le> num" for l
  proof -
    from that obtain u where "u < ?n" "labeled ! u = l"
      using c5 by blast
    with that(1) nz [of u] show ?thesis
      by (auto simp: voxels_def)
  qed
qed

lemma label_num_zero:
  assumes "label m = (labeled, num)"
  shows "num = 0 \<longleftrightarrow> voxels m = {}"
proof
  assume "num = 0"
  show "voxels m = {}"
  proof (rule ccontr)
    assume "voxels m \<noteq> {}"
    then obtain u where u: "u \<in> voxels m" by blast
    then have "labeled ! u \<noteq> 0" "labeled ! u \<le> num"
      using label_facts(2,3) [OF assms, of u] by (auto simp: voxels_def)
    with \<open>num = 0\<close> show False by simp
  qed
next
  assume e: "voxels m = {}"
  show "num = 0"
  proof (rule ccontr)
    assume "num \<noteq> 0"
    then have "\<exists>u \<in> voxels m. labeled ! u = num"
      by (intro label_facts(5) [OF assms]) auto
    with e show False by simp
  qed
qed

lemma label_sum_comp_size:
  assumes "label m = (labeled, num)" "wf_array m" "u \<in> voxels m"
  shows "label_sum m labeled (labeled ! u) = comp_size m u"
proof -
  have "length labeled = length (data m)"
    using label_facts(1) [OF assms(1)] assms(2) by (simp add: wf_array_def)
  then have "label_sum m labeled (labeled ! u) =
      (\<Sum>j | j < length (data m) \<and> labeled ! j = labeled ! u. data m ! j)"
    by (rule label_sum_eq)
  also have "{j. j < length (data m) \<and> labeled ! j = labeled ! u} = component m u"
    using label_facts(4) [OF assms(1,3)] assms(2) by (simp add: wf_array_def)
  finally show ?thesis
    by (simp add: comp_size_def)
qed

lemma sizes_set:
  assumes "label m = (labeled, num)" "wf_array m"
  shows "set (ndimage_sum m labeled [1..<num + 1]) = (\<lambda>u. of_nat (comp_size m u)) ` voxels m"
proof -
  let ?f = "\<lambda>i. (of_nat (label_sum m labeled i) :: rat)"
  let ?g = "\<lambda>u. (of_nat (comp_size m u) :: rat)"
  have "?f ` {1..<num + 1} = ?g ` voxels m"
  proof (intro set_eqI iffI)
    fix s assume "s \<in> ?f ` {1..<num + 1}"
    then obtain l where l: "l \<in> {1..<num + 1}" "s = ?f l"
      by blast
    then have "0 < l" "l \<le> num"
      by simp_all
    then obtain u where u: "u \<in> voxels m" "labeled ! u = l"
      using label_facts(5) [OF assms(1)] by blast
    have "?f l = ?g u"
      using label_sum_comp_size [OF assms u(1)] u(2) by simp
    with l(2) u(1) show "s \<in> ?g ` voxels m"
      by blast
  next
    fix s assume "s \<in> ?g ` voxels m"
    then obtain u where u: "u \<in> voxels m" "s = ?g u"
      by blast
    then have "labeled ! u \<noteq> 0" "labeled ! u \<le> num"
      using label_facts(2,3) [OF assms(1), of u] by (auto simp: voxels_def)
    then have "labeled ! u \<in> {1..<num + 1}"
      by simp
    moreover have "s = ?f (labeled ! u)"
      using label_sum_comp_size [OF assms u(1)] u(2) by simp
    ultimately show "s \<in> ?f ` {1..<num + 1}"
      by blast
  qed
  moreover have "set (ndimage_sum m labeled [1..<num + 1]) = ?f ` {1..<num + 1}"
    unfolding ndimage_sum_label_sum set_map set_upt ..
  ultimately show ?thesis
    by simp
qed

lemma np_max_Max: "xs \<noteq> [] \<Longrightarrow> np_max xs = Max (set xs)"
  by (cases xs) (simp_all add: np_max_def Max.set_eq_fold [symmetric])

lemma np_max_sizes:
  assumes "label m = (labeled, num)" "wf_array m" "voxels m \<noteq> {}"
  shows "np_max (ndimage_sum m labeled [1..<num + 1]) = of_nat (max_comp_size m)"
proof -
  let ?sizes = "ndimage_sum m labeled [1..<num + 1]"
  have s: "set ?sizes = (\<lambda>u. of_nat (comp_size m u)) ` voxels m"
    using assms(1,2) by (rule sizes_set)
  have "set ?sizes \<noteq> {}"
    using assms(3) unfolding s by simp
  then have "?sizes \<noteq> []"
    by (simp only: set_empty not_False_eq_True)
  then have "np_max ?sizes = Max (set ?sizes)"
    by (rule np_max_Max)
  also have "set ?sizes = of_nat ` (comp_size m ` voxels m)"
    unfolding s by (simp only: image_image)
  also have "Max (of_nat ` (comp_size m ` voxels m)) = (of_nat (Max (comp_size m ` voxels m)) :: rat)"
    using assms(3) by (intro mono_Max_commute [symmetric]) (auto intro: monoI)
  finally show ?thesis
    by (simp only: max_comp_size_def)
qed

lemma comp_size_csum: "comp_size m u = csum m (component m u)"
  by (simp add: comp_size_def csum_def)

lemma keep_data_Nil:
  assumes "length xs = length labeled"
  shows "keep_data labeled thr [] xs = xs"
proof -
  have "map ((!) xs) [0..<length xs] = xs"
    by (rule map_nth)
  then show ?thesis
    using assms by (simp add: keep_data_def)
qed

lemma keep_data_Cons:
  assumes "length xs = length labeled"
  shows "keep_data labeled thr ((i, s) # es) xs =
     keep_data labeled thr es
       (if thr < s then map (\<lambda>(l, x). if l = i then 1 else x) (zip labeled xs) else xs)"
  unfolding keep_data_def using assms by (auto intro!: map_cong)

lemma length_keep_data [simp]: "length (keep_data labeled thr es xs) = length labeled"
  by (simp add: keep_data_def)

lemma keep_loop_result:
  assumes "mc < length h" "length (data (h ! mc)) = length labeled"
  shows "keep_loop labeled thr mc es (h, k) =
     (h[mc := (h ! mc)\<lparr>data := keep_data labeled thr es (data (h ! mc))\<rparr>],
      k + int (length (filter (\<lambda>(i, s). thr < s) es)))"
  using assms
proof (induction es arbitrary: h k)
  case Nil
  then show ?case
    by (simp add: keep_data_Nil)
next
  case (Cons e es)
  obtain i s where e: "e = (i, s)" by (cases e)
  show ?case
  proof (cases "thr < s")
    case True
    let ?h = "h[mc := assign_where labeled i (h ! mc)]"
    have "keep_loop labeled thr mc (e # es) (h, k) = keep_loop labeled thr mc es (?h, k + 1)"
      using True by (simp add: e)
    also have "\<dots> = (?h[mc := (?h ! mc)\<lparr>data := keep_data labeled thr es (data (?h ! mc))\<rparr>],
        k + 1 + int (length (filter (\<lambda>(i, s). thr < s) es)))"
      using Cons.prems by (intro Cons.IH) (simp_all add: assign_where_def)
    also have "?h[mc := (?h ! mc)\<lparr>data := keep_data labeled thr es (data (?h ! mc))\<rparr>] =
        h[mc := (h ! mc)\<lparr>data := keep_data labeled thr (e # es) (data (h ! mc))\<rparr>]"
    proof -
      have D: "data (assign_where labeled i (h ! mc)) =
          map (\<lambda>(l, x). if l = i then 1 else x) (zip labeled (data (h ! mc)))"
        by (simp add: assign_where_def)
      have K: "keep_data labeled thr (e # es) (data (h ! mc)) =
          keep_data labeled thr es (data (assign_where labeled i (h ! mc)))"
        by (simp only: e D keep_data_Cons [OF Cons.prems(2)] True if_True)
      have R: "(assign_where labeled i (h ! mc))\<lparr>data := X\<rparr> = (h ! mc)\<lparr>data := X\<rparr>" for X
        by (simp add: assign_where_def)
      show ?thesis
        using Cons.prems(1) by (simp add: K R)
    qed
    finally show ?thesis
      using True by (simp add: e)
  next
    case False
    have "keep_loop labeled thr mc (e # es) (h, k) = keep_loop labeled thr mc es (h, k)"
      using False by (simp add: e)
    also have "\<dots> = (h[mc := (h ! mc)\<lparr>data := keep_data labeled thr es (data (h ! mc))\<rparr>],
        k + int (length (filter (\<lambda>(i, s). thr < s) es)))"
      using Cons.prems by (intro Cons.IH)
    finally show ?thesis
      using Cons.prems False by (simp add: e keep_data_Cons)
  qed
qed

lemma enumerate_sizes:
  "enumerate 1 (ndimage_sum m labeled [1..<num + 1]) =
     map (\<lambda>l. (l, of_nat (label_sum m labeled l))) [1..<num + 1]"
  unfolding ndimage_sum_label_sum by (rule enumerate_map_upt)

lemma in_enumerate_sizes:
  "(i, s) \<in> set (enumerate 1 (ndimage_sum m labeled [1..<num + 1])) \<longleftrightarrow>
     0 < i \<and> i \<le> num \<and> s = of_nat (label_sum m labeled i)"
  unfolding enumerate_sizes set_map set_upt by auto

lemma keep_data_cleaned:
  assumes lab: "label m = (labeled, num)" and wf: "wf_array m" and ne: "voxels m \<noteq> {}"
  shows "keep_data labeled (np_max (ndimage_sum m labeled [1..<num + 1]) * ratio)
           (enumerate 1 (ndimage_sum m labeled [1..<num + 1])) (data (zeros_like m)) =
         data (cleaned m ratio)"
proof -
  let ?n = "numel (shape m)"
  let ?sizes = "ndimage_sum m labeled [1..<num + 1]"
  let ?thr = "of_nat (max_comp_size m) * ratio :: rat"
  have len: "length labeled = ?n"
    using lab by (rule label_facts(1))
  have thr: "np_max ?sizes * ratio = ?thr"
    using np_max_sizes [OF lab wf ne] by simp
  have key: "(\<exists>(i, s) \<in> set (enumerate 1 ?sizes). ?thr < s \<and> labeled ! j = i) \<longleftrightarrow> kept m ratio j"
    if j: "j < ?n" for j
  proof
    assume "\<exists>(i, s) \<in> set (enumerate 1 ?sizes). ?thr < s \<and> labeled ! j = i"
    then obtain i s where hyp: "(i, s) \<in> set (enumerate 1 ?sizes)" "?thr < s" "labeled ! j = i"
      by blast
    from hyp(1) have i: "0 < i" "s = of_nat (label_sum m labeled i)"
      unfolding in_enumerate_sizes by blast+
    with hyp(3) have "labeled ! j \<noteq> 0" by simp
    then have jv: "j \<in> voxels m"
      using label_facts(2) [OF lab j] j by (simp add: voxels_def)
    have "label_sum m labeled i = comp_size m j"
      using label_sum_comp_size [OF lab wf jv] hyp(3) by simp
    with hyp(2) i(2) jv show "kept m ratio j"
      by (simp add: kept_def)
  next
    assume k: "kept m ratio j"
    then have jv: "j \<in> voxels m" and big: "?thr < of_nat (comp_size m j)"
      by (simp_all add: kept_def)
    have "labeled ! j \<noteq> 0" "labeled ! j \<le> num"
      using label_facts(2,3) [OF lab j] jv by (simp_all add: voxels_def)
    then have "(labeled ! j, of_nat (label_sum m labeled (labeled ! j))) \<in> set (enumerate 1 ?sizes)"
      unfolding in_enumerate_sizes by simp
    moreover have "?thr < of_nat (label_sum m labeled (labeled ! j))"
      using big label_sum_comp_size [OF lab wf jv] by simp
    ultimately show "\<exists>(i, s) \<in> set (enumerate 1 ?sizes). ?thr < s \<and> labeled ! j = i"
      by blast
  qed
  have "keep_data labeled ?thr (enumerate 1 ?sizes) (data (zeros_like m)) =
      map (\<lambda>u. if kept m ratio u then 1 else 0) [0..<?n]"
    unfolding keep_data_def len
  proof (rule map_cong [OF refl])
    fix j assume "j \<in> set [0..<?n]"
    then have j: "j < ?n" by simp
    then have "data (zeros_like m) ! j = 0"
      using wf by (simp add: zeros_like_def wf_array_def)
    with key [OF j] show "(if \<exists>(i, s) \<in> set (enumerate 1 ?sizes). ?thr < s \<and> labeled ! j = i then 1
          else data (zeros_like m) ! j) = (if kept m ratio j then 1 else 0)"
      by simp
  qed
  then show ?thesis
    by (simp only: thr cleaned_def ndarray.simps)
qed

lemma label_classes:
  assumes lab: "label m = (labeled, num)"
  defines "cls \<equiv> \<lambda>l. {w. w < numel (shape m) \<and> labeled ! w = l}"
  shows "cls ` {1..<num + 1} = components m"
    and "inj_on cls {1..<num + 1}"
    and "\<And>u. u \<in> voxels m \<Longrightarrow> cls (labeled ! u) = component m u"
proof -
  show c: "cls (labeled ! u) = component m u" if "u \<in> voxels m" for u
    unfolding cls_def using that by (rule label_facts(4) [OF lab])
  show "cls ` {1..<num + 1} = components m"
  proof (intro set_eqI iffI)
    fix C assume "C \<in> cls ` {1..<num + 1}"
    then obtain l where l: "l \<in> {1..<num + 1}" "C = cls l"
      by blast
    then have "0 < l" "l \<le> num"
      by simp_all
    then obtain u where "u \<in> voxels m" "labeled ! u = l"
      using label_facts(5) [OF lab] by blast
    with l(2) c [of u] show "C \<in> components m"
      by (auto simp: components_def)
  next
    fix C assume "C \<in> components m"
    then obtain u where u: "u \<in> voxels m" "C = component m u"
      by (auto simp: components_def)
    then have "labeled ! u \<noteq> 0" "labeled ! u \<le> num"
      using label_facts(2,3) [OF lab, of u] by (auto simp: voxels_def)
    then have "labeled ! u \<in> {1..<num + 1}"
      by simp
    with u c [of u] show "C \<in> cls ` {1..<num + 1}"
      by blast
  qed
  show "inj_on cls {1..<num + 1}"
  proof (rule inj_onI)
    fix l l' assume l: "l \<in> {1..<num + 1}" and l': "l' \<in> {1..<num + 1}" and eq: "cls l = cls l'"
    from l have "0 < l" "l \<le> num"
      by simp_all
    then obtain u where u: "u \<in> voxels m" "labeled ! u = l"
      using label_facts(5) [OF lab] by blast
    then have "u \<in> cls l"
      by (simp add: cls_def voxels_def)
    with eq have "u \<in> cls l'"
      by simp
    with u(2) show "l = l'"
      by (simp add: cls_def)
  qed
qed

lemma card_components:
  assumes "label m = (labeled, num)"
  shows "card (components m) = num"
proof -
  have "card (components m) = card {1..<num + 1}"
    using label_classes(1,2) [OF assms] by (metis card_image)
  then show ?thesis
    by simp
qed

lemma card_kept_components:
  assumes lab: "label m = (labeled, num)" and wf: "wf_array m" and ne: "voxels m \<noteq> {}"
  shows "length (filter (\<lambda>(i, s). np_max (ndimage_sum m labeled [1..<num + 1]) * ratio < s)
           (enumerate 1 (ndimage_sum m labeled [1..<num + 1]))) = card (kept_components m ratio)"
proof -
  let ?n = "numel (shape m)"
  let ?thr = "of_nat (max_comp_size m) * ratio :: rat"
  let ?cls = "\<lambda>l. {w. w < ?n \<and> labeled ! w = l}"
  let ?big = "\<lambda>l. ?thr < of_nat (label_sum m labeled l)"
  let ?L = "{l \<in> {1..<num + 1}. ?big l}"
  have thr: "np_max (ndimage_sum m labeled [1..<num + 1]) * ratio = ?thr"
    using np_max_sizes [OF lab wf ne] by simp
  have len: "length labeled = length (data m)"
    using label_facts(1) [OF lab] wf by (simp add: wf_array_def)
  have ls: "label_sum m labeled l = csum m (?cls l)" for l
    using label_sum_eq [OF len, of l] wf by (simp add: csum_def wf_array_def)
  have "filter (\<lambda>(i, s). ?thr < s) (map (\<lambda>l. (l, of_nat (label_sum m labeled l))) [1..<num + 1]) =
      map (\<lambda>l. (l, of_nat (label_sum m labeled l))) (filter ?big [1..<num + 1])"
    by (simp only: filter_map comp_def prod.case)
  then have "length (filter (\<lambda>(i, s). ?thr < s) (enumerate 1 (ndimage_sum m labeled [1..<num + 1]))) =
      length (filter ?big [1..<num + 1])"
    by (simp only: enumerate_sizes length_map)
  also have "\<dots> = card ({l. ?big l} \<inter> set [1..<num + 1])"
    by (rule distinct_length_filter) (rule distinct_upt)
  also have "{l. ?big l} \<inter> set [1..<num + 1] = ?L"
    unfolding set_upt by blast
  also have "card ?L = card (?cls ` ?L)"
  proof (rule card_image [symmetric])
    show "inj_on ?cls ?L"
      using label_classes(2) [OF lab] by (rule inj_on_subset) blast
  qed
  also have "?cls ` ?L = kept_components m ratio"
  proof (intro set_eqI iffI)
    fix C assume "C \<in> ?cls ` ?L"
    then obtain l where l: "l \<in> {1..<num + 1}" "?big l" "C = ?cls l"
      by blast
    from l(1) have "?cls l \<in> components m"
      using label_classes(1) [OF lab] by blast
    with l(2,3) show "C \<in> kept_components m ratio"
      by (simp add: kept_components_def ls)
  next
    fix C assume "C \<in> kept_components m ratio"
    then have C: "C \<in> components m" "?thr < of_nat (csum m C)"
      by (simp_all add: kept_components_def)
    then obtain l where l: "l \<in> {1..<num + 1}" "C = ?cls l"
      using label_classes(1) [OF lab] by blast
    with C(2) have "?big l"
      by (simp add: ls)
    with l show "C \<in> ?cls ` ?L"
      by blast
  qed
  finally show ?thesis
    by (simp only: thr)
qed

lemma rsc_empty:
  assumes "voxels (h ! a) = {}"
  shows "remove_small_components a ratio h =
     ((a, [(''voxels_before'', np_sum (h ! a)), (''voxels_after'', 0),
           (''components_removed'', 0)]), h)"
proof -
  obtain labeled num where lab: "label (h ! a) = (labeled, num)"
    by (cases "label (h ! a)")
  with assms have "num = 0"
    by (simp add: label_num_zero)
  then show ?thesis
    by (simp add: remove_small_components_def lab)
qed

lemma rsc_nonempty:
  assumes wf: "wf_array (h ! a)" and ne: "voxels (h ! a) \<noteq> {}"
  shows "remove_small_components a ratio h =
     ((length h, rsc_stats (h ! a) ratio), h @ [cleaned (h ! a) ratio])"
proof -
  obtain labeled num where lab: "label (h ! a) = (labeled, num)"
    by (cases "label (h ! a)")
  with ne have num: "num \<noteq> 0"
    by (simp add: label_num_zero)
  let ?sizes = "ndimage_sum (h ! a) labeled [1..<num + 1]"
  let ?thr = "np_max ?sizes * ratio"
  let ?h1 = "h @ [zeros_like (h ! a)]"
  have len: "length (data (?h1 ! length h)) = length labeled"
    using label_facts(1) [OF lab] wf by (simp add: zeros_like_def wf_array_def)
  have "keep_loop labeled ?thr (length h) (enumerate 1 ?sizes) (?h1, 0) =
      (?h1[length h := (?h1 ! length h)\<lparr>data := keep_data labeled ?thr (enumerate 1 ?sizes)
          (data (?h1 ! length h))\<rparr>],
       0 + int (length (filter (\<lambda>(i, s). ?thr < s) (enumerate 1 ?sizes))))"
    using len by (intro keep_loop_result) simp_all
  also have "?h1 ! length h = zeros_like (h ! a)"
    by simp
  also have "keep_data labeled ?thr (enumerate 1 ?sizes) (data (zeros_like (h ! a))) =
      data (cleaned (h ! a) ratio)"
    using lab wf ne by (rule keep_data_cleaned)
  also have "(zeros_like (h ! a))\<lparr>data := data (cleaned (h ! a) ratio)\<rparr> = cleaned (h ! a) ratio"
    by (simp add: zeros_like_def cleaned_def)
  also have "?h1[length h := cleaned (h ! a) ratio] = h @ [cleaned (h ! a) ratio]"
    by simp
  also have "length (filter (\<lambda>(i, s). ?thr < s) (enumerate 1 ?sizes)) =
      card (kept_components (h ! a) ratio)"
    using lab wf ne by (rule card_kept_components)
  finally have kl: "keep_loop labeled ?thr (length h) (enumerate 1 ?sizes) (?h1, 0) =
      (h @ [cleaned (h ! a) ratio], int (card (kept_components (h ! a) ratio)))"
    by simp
  have ct: "int num = int (card (components (h ! a)))"
    using card_components [OF lab] by simp
  show ?thesis
    unfolding remove_small_components_def lab Let_def prod.case alloc_def kl
    using num by (simp add: rsc_stats_def ct)
qed

lemma sum_list_indicator:
  "sum_list (map (\<lambda>u. if P u then 1 else 0) [0..<n]) = card {u. u < n \<and> P u}"
proof -
  have "sum_list (map (\<lambda>u. if P u then 1 else 0) [0..<n]) = (\<Sum>u \<in> {0..<n}. if P u then 1 else (0::nat))"
    by (simp add: interv_sum_list_conv_sum_set_nat)
  also have "\<dots> = (\<Sum>u \<in> {u \<in> {0..<n}. P u}. 1)"
    by (rule sum.inter_filter [symmetric]) simp
  also have "{u \<in> {0..<n}. P u} = {u. u < n \<and> P u}"
    by auto
  finally show ?thesis
    by simp
qed

lemma shape_cleaned [simp]: "shape (cleaned m ratio) = shape m"
  by (simp add: cleaned_def)

lemma wf_cleaned [simp]: "wf_array (cleaned m ratio)"
  by (simp add: cleaned_def wf_array_def)

lemma nth_cleaned:
  "u < numel (shape m) \<Longrightarrow> data (cleaned m ratio) ! u = (if kept m ratio u then 1 else 0)"
  by (simp add: cleaned_def)

lemma is_binary_cleaned [simp]: "is_binary (cleaned m ratio)"
  by (auto simp: is_binary_def cleaned_def list_all_iff)

lemma voxels_cleaned: "voxels (cleaned m ratio) = {u. kept m ratio u}"
  by (auto simp: voxels_def foreground_def nth_cleaned kept_def split: if_splits)

lemma np_sum_cleaned: "np_sum (cleaned m ratio) = int (card {u. kept m ratio u})"
proof -
  have "{u. u < numel (shape m) \<and> kept m ratio u} = {u. kept m ratio u}"
    by (auto simp: kept_def voxels_def)
  then show ?thesis
    by (simp add: np_sum_def cleaned_def sum_list_indicator)
qed

lemma kept_subset_voxels: "{u. kept m ratio u} \<subseteq> voxels m"
  by (auto simp: kept_def)

lemma card_voxels_le_sum:
  assumes "wf_array m"
  shows "card (voxels m) \<le> sum_list (data m)"
proof -
  let ?n = "numel (shape m)"
  have len: "length (data m) = ?n"
    using assms by (simp add: wf_array_def)
  have "card (voxels m) = sum_list (map (\<lambda>u. if data m ! u \<noteq> 0 then 1 else 0) [0..<?n])"
    by (simp add: sum_list_indicator voxels_def foreground_def)
  also have "\<dots> \<le> sum_list (map (\<lambda>u. data m ! u) [0..<?n])"
    by (rule sum_list_mono) simp
  also have "map (\<lambda>u. data m ! u) [0..<?n] = data m"
    using map_nth [of "data m"] len by simp
  finally show ?thesis .
qed

lemma np_sum_cleaned_le:
  assumes "wf_array m"
  shows "np_sum (cleaned m ratio) \<le> np_sum m"
proof -
  have "card {u. kept m ratio u} \<le> card (voxels m)"
    by (rule card_mono) (simp_all add: kept_subset_voxels)
  also have "\<dots> \<le> sum_list (data m)"
    using assms by (rule card_voxels_le_sum)
  finally show ?thesis
    by (simp only: np_sum_cleaned) (simp add: np_sum_def)
qed

lemma binary_nth:
  assumes "is_binary m" "wf_array m" "u < numel (shape m)"
  shows "data m ! u = (if u \<in> voxels m then 1 else 0)"
proof -
  from assms have "data m ! u \<in> set (data m)"
    by (simp add: wf_array_def)
  with assms(1) have "data m ! u = 0 \<or> data m ! u = 1"
    by (simp add: is_binary_def list_all_iff)
  with assms(3) show ?thesis
    by (auto simp: voxels_def foreground_def)
qed

lemma binary_csum:
  assumes "is_binary m" "wf_array m" "C \<subseteq> voxels m"
  shows "csum m C = card C"
proof -
  have "csum m C = (\<Sum>w \<in> C. 1)"
    unfolding csum_def
  proof (rule sum.cong [OF refl])
    fix w assume "w \<in> C"
    with assms(3) have "w \<in> voxels m" by blast
    then show "data m ! w = 1"
      using binary_nth [OF assms(1,2), of w] by (simp add: voxels_def)
  qed
  then show ?thesis
    by simp
qed

lemma binary_comp_size:
  assumes "is_binary m" "wf_array m" "u \<in> voxels m"
  shows "comp_size m u = card (component m u)"
  using assms by (simp add: comp_size_csum binary_csum component_subset_voxels)

lemma binary_np_sum:
  assumes "is_binary m" "wf_array m"
  shows "np_sum m = int (card (voxels m))"
proof -
  let ?n = "numel (shape m)"
  have "data m = map (\<lambda>u. data m ! u) [0..<?n]"
    using map_nth [of "data m"] assms(2) by (simp add: wf_array_def)
  also have "\<dots> = map (\<lambda>u. if u \<in> voxels m then 1 else 0) [0..<?n]"
    by (rule map_cong [OF refl]) (simp add: binary_nth [OF assms])
  finally have "sum_list (data m) = sum_list (map (\<lambda>u. if u \<in> voxels m then 1 else 0) [0..<?n])"
    by simp
  also have "\<dots> = card {u. u < ?n \<and> u \<in> voxels m}"
    by (rule sum_list_indicator)
  also have "{u. u < ?n \<and> u \<in> voxels m} = voxels m"
    by (auto simp: voxels_def)
  finally show ?thesis
    by (simp add: np_sum_def)
qed

lemma binary_cleaned_eq:
  assumes "is_binary m" "wf_array m" "\<And>u. u \<in> voxels m \<Longrightarrow> kept m ratio u"
  shows "cleaned m ratio = m"
proof -
  let ?n = "numel (shape m)"
  have "data (cleaned m ratio) = map (\<lambda>u. if u \<in> voxels m then 1 else 0) [0..<?n]"
    unfolding cleaned_def using assms(3) by (auto simp: kept_def intro!: map_cong)
  also have "\<dots> = map (\<lambda>u. data m ! u) [0..<?n]"
    by (rule map_cong [OF refl]) (simp add: binary_nth [OF assms(1,2)])
  also have "\<dots> = data m"
    using map_nth [of "data m"] assms(2) by (simp add: wf_array_def)
  finally show ?thesis
    by (simp add: cleaned_def)
qed

text \<open>The largest component survives a threshold ratio below one.\<close>

lemma max_comp_size_attained:
  assumes "voxels m \<noteq> {}"
  obtains u where "u \<in> voxels m" "comp_size m u = max_comp_size m"
proof -
  have "Max (comp_size m ` voxels m) \<in> comp_size m ` voxels m"
    using assms by (intro Max_in) simp_all
  then show ?thesis
    using that by (auto simp: max_comp_size_def)
qed

lemma comp_size_le_max: "u \<in> voxels m \<Longrightarrow> comp_size m u \<le> max_comp_size m"
  by (simp add: max_comp_size_def)

lemma comp_size_pos:
  assumes "is_binary m" "wf_array m" "u \<in> voxels m"
  shows "0 < comp_size m u"
proof -
  have "u \<in> component m u"
    by simp
  then have "finite (component m u)" "component m u \<noteq> {}"
    using assms(3) by (blast intro: finite_component)+
  then show ?thesis
    using assms by (simp add: binary_comp_size card_gt_0_iff)
qed

lemma kept_connected:
  assumes "kept m ratio u" "(u, w) \<in> connected m"
  shows "kept m ratio w"
proof -
  from assms have "w \<in> voxels m"
    by (auto simp: kept_def dest: connected_voxels)
  moreover have "comp_size m w = comp_size m u"
    using component_eq [OF assms(2)] by (simp add: comp_size_def)
  ultimately show ?thesis
    using assms(1) by (simp add: kept_def)
qed

lemma adjacent_cleaned:
  "(u, w) \<in> adjacent (cleaned m ratio) \<longleftrightarrow> (u, w) \<in> adjacent m \<and> kept m ratio u \<and> kept m ratio w"
proof -
  have "foreground (cleaned m ratio) x \<longleftrightarrow> kept m ratio x" if "x < numel (shape m)" for x
    using that by (simp add: foreground_def nth_cleaned)
  moreover have "kept m ratio x \<Longrightarrow> foreground m x" for x
    by (simp add: kept_def voxels_def)
  ultimately show ?thesis
    by (auto simp: adjacent_def edges_def)
qed

lemma component_cleaned:
  assumes "kept m ratio u"
  shows "component (cleaned m ratio) u = component m u"
proof (intro set_eqI iffI)
  fix w assume "w \<in> component (cleaned m ratio) u"
  then have "(u, w) \<in> (adjacent (cleaned m ratio))\<^sup>*"
    by (simp add: component_def connected_def)
  then have "(u, w) \<in> (adjacent m)\<^sup>*"
    by (induction rule: rtrancl_induct) (auto simp: adjacent_cleaned)
  then show "w \<in> component m u"
    by (simp add: component_def connected_def)
next
  fix w assume "w \<in> component m u"
  then have "(u, w) \<in> (adjacent m)\<^sup>*"
    by (simp add: component_def connected_def)
  then have "(u, w) \<in> (adjacent (cleaned m ratio))\<^sup>* \<and> kept m ratio w"
  proof (induction rule: rtrancl_induct)
    case base
    then show ?case using assms by simp
  next
    case (step y z)
    then have "(y, z) \<in> connected m"
      by (simp add: connected_def)
    with step have "kept m ratio z"
      using kept_connected by blast
    with step have "(y, z) \<in> adjacent (cleaned m ratio)"
      by (simp add: adjacent_cleaned)
    with step \<open>kept m ratio z\<close> show ?case
      by (meson rtrancl.rtrancl_into_rtrancl)
  qed
  then show "w \<in> component (cleaned m ratio) u"
    by (simp add: component_def connected_def)
qed

lemma cleaned_idem:
  assumes bin: "is_binary m" and wf: "wf_array m" and ne: "voxels m \<noteq> {}"
    and ratio: "ratio < 1"
  shows "cleaned (cleaned m ratio) ratio = cleaned m ratio"
    and "voxels (cleaned m ratio) \<noteq> {}"
proof -
  let ?c = "cleaned m ratio"
  obtain t where t: "t \<in> voxels m" "comp_size m t = max_comp_size m"
    using ne by (rule max_comp_size_attained)
  have pos: "0 < max_comp_size m"
    using comp_size_pos [OF bin wf t(1)] t(2) by simp
  then have "of_nat (max_comp_size m) * ratio < (of_nat (max_comp_size m) :: rat)"
    using ratio by simp
  with t have kt: "kept m ratio t"
    by (simp add: kept_def)
  then show ne': "voxels ?c \<noteq> {}"
    by (auto simp: voxels_cleaned)
  have cs: "comp_size ?c u = comp_size m u" if "kept m ratio u" for u
  proof -
    have "u \<in> voxels m" "u \<in> voxels ?c"
      using that by (simp_all add: voxels_cleaned kept_def)
    then show ?thesis
      using that by (simp add: binary_comp_size bin wf component_cleaned)
  qed
  have "comp_size ?c ` voxels ?c = comp_size m ` {u. kept m ratio u}"
    unfolding voxels_cleaned by (rule image_cong [OF refl]) (simp add: cs)
  then have "max_comp_size ?c = Max (comp_size m ` {u. kept m ratio u})"
    by (simp add: max_comp_size_def)
  also have "\<dots> = max_comp_size m"
  proof (rule Max_eqI)
    show "finite (comp_size m ` {u. kept m ratio u})"
      using kept_subset_voxels [of m ratio] by (meson finite_imageI finite_subset finite_voxels)
    show "y \<le> max_comp_size m" if "y \<in> comp_size m ` {u. kept m ratio u}" for y
      using that by (auto simp: kept_def comp_size_le_max)
    show "max_comp_size m \<in> comp_size m ` {u. kept m ratio u}"
      using kt t(2) by (metis image_eqI mem_Collect_eq)
  qed
  finally have mx: "max_comp_size ?c = max_comp_size m" .
  have "kept ?c ratio u" if "u \<in> voxels ?c" for u
  proof -
    from that have k: "kept m ratio u"
      by (simp add: voxels_cleaned)
    then show ?thesis
      using that by (simp add: kept_def [of ?c] mx cs) (simp add: kept_def)
  qed
  then show "cleaned ?c ratio = ?c"
    by (intro binary_cleaned_eq) simp_all
qed

lemma frame_refl [simp]: "frame n h h"
  by (simp add: frame_def)

lemma frame_trans: "frame n h h1 \<Longrightarrow> frame n h1 h2 \<Longrightarrow> frame n h h2"
  by (auto simp: frame_def)

lemma frame_alloc: "n \<le> length h \<Longrightarrow> frame n h (h @ [a])"
  by (simp add: frame_def nth_append)

lemma frame_update: "n \<le> i \<Longrightarrow> frame n h (h[i := x])"
  by (simp add: frame_def)

lemma res_ok_then_do:
  assumes "res_ok n h r"
    and "\<And>x h1. r = (Inr x, h1) \<Longrightarrow> n \<le> fst x \<Longrightarrow> fst x < length h1 \<Longrightarrow> res_ok n h1 (f x h1)"
  shows "res_ok n h (then_do r f)"
proof (cases r)
  case (Pair e h1)
  show ?thesis
  proof (cases e)
    case (Inl err)
    with Pair assms(1) show ?thesis
      by (simp add: then_do_def res_ok_def)
  next
    case (Inr x)
    with Pair assms have "res_ok n h1 (f x h1)"
      by (simp add: res_ok_def)
    moreover from Pair assms(1) have "frame n h h1"
      by (simp add: res_ok_def)
    ultimately show ?thesis
      using Pair Inr by (auto simp: then_do_def res_ok_def intro: frame_trans)
  qed
qed

lemma apply_hu_dilation_heap:
  "(\<exists>e. apply_hu_dilation m vol lo hi it h = (Inl e, h)) \<or>
   (\<exists>st r. apply_hu_dilation m vol lo hi it h = (Inr (length h, st), h @ [r]))"
  by (simp add: apply_hu_dilation_def Let_def alloc_def split: sum.splits)

lemma apply_morphological_closing_heap:
  "\<exists>st. apply_morphological_closing m sz h =
     ((length h, st), h @ [binary_closing (h ! m) sz])"
  by (simp add: apply_morphological_closing_def Let_def alloc_def)

lemma keep_loop_frame:
  "length (fst (keep_loop labeled thr mc es (h, k))) = length h \<and>
   (\<forall>a. a \<noteq> mc \<longrightarrow> fst (keep_loop labeled thr mc es (h, k)) ! a = h ! a)"
proof (induction es arbitrary: h k)
  case Nil
  then show ?case by simp
next
  case (Cons e es)
  obtain i s where e: "e = (i, s)" by (cases e)
  show ?case
    using Cons.IH [of "h[mc := assign_where labeled i (h ! mc)]" "k + 1"] Cons.IH [of h k]
    by (simp add: e)
qed

lemma remove_small_components_heap:
  "(\<exists>st. remove_small_components m ratio h = ((m, st), h)) \<or>
   (\<exists>st r. remove_small_components m ratio h = ((length h, st), h @ [r]))"
proof -
  obtain labeled num where lab: "label (h ! m) = (labeled, num)"
    by (cases "label (h ! m)")
  show ?thesis
  proof (cases "num = 0")
    case True
    then show ?thesis
      by (simp add: remove_small_components_def lab)
  next
    case False
    let ?sizes = "ndimage_sum (h ! m) labeled [1..<num + 1]"
    let ?h1 = "h @ [zeros_like (h ! m)]"
    obtain h2 k where kl: "keep_loop labeled (np_max ?sizes * ratio) (length h) (enumerate 1 ?sizes)
        (?h1, 0) = (h2, k)"
      by (cases "keep_loop labeled (np_max ?sizes * ratio) (length h) (enumerate 1 ?sizes) (?h1, 0)")
    have f: "length h2 = length ?h1" "\<And>a. a \<noteq> length h \<Longrightarrow> h2 ! a = ?h1 ! a"
      using keep_loop_frame [of labeled "np_max ?sizes * ratio" "length h" "enumerate 1 ?sizes" ?h1 0]
      unfolding kl fst_conv by blast+
    have "h2 = h @ [h2 ! length h]"
    proof (rule nth_equalityI)
      show "length h2 = length (h @ [h2 ! length h])"
        using f(1) by simp
      show "h2 ! i = (h @ [h2 ! length h]) ! i" if "i < length h2" for i
        using that f by (cases "i = length h") (simp_all add: nth_append)
    qed
    then have "\<exists>r. h2 = h @ [r]"
      by blast
    then show ?thesis
      unfolding remove_small_components_def lab Let_def prod.case alloc_def kl
      using False by auto
  qed
qed

lemma fill_loop_frame:
  "length (fst (fill_loop m zs (h, k))) = length h \<and>
   (\<forall>a. a \<noteq> m \<longrightarrow> fst (fill_loop m zs (h, k)) ! a = h ! a)"
proof (induction zs arbitrary: h k)
  case Nil
  then show ?case by simp
next
  case (Cons z zs)
  let ?h = "h[m := set_slice (h ! m) z
              (binary_fill_holes (fst (snd (shape (h ! m))), snd (snd (shape (h ! m))))
                 (get_slice (h ! m) z))]"
  show ?case
    using Cons.IH [of ?h "k + 1"] Cons.IH [of h k]
    by simp
qed

lemma fill_holes_2d_heap:
  "\<exists>st h'. fill_holes_2d m h = ((m, st), h') \<and> length h' = length h \<and>
     (\<forall>a. a \<noteq> m \<longrightarrow> h' ! a = h ! a)"
proof -
  obtain h' k where fl: "fill_loop m [0..<fst (shape (h ! m))] (h, 0) = (h', k)"
    by (cases "fill_loop m [0..<fst (shape (h ! m))] (h, 0)")
  with fill_loop_frame [of m "[0..<fst (shape (h ! m))]" h 0] show ?thesis
    by (simp add: fill_holes_2d_def Let_def)
qed

lemma grows_res_ok:
  assumes "grows m h res" "n \<le> m" "m < length h"
  shows "res_ok n h res"
  using assms by (auto simp: grows_def res_ok_def frame_def nth_append)

lemma refine_step1_grows: "grows m h (refine_step1 vol ps (m, steps_so_far) h)"
proof (cases "dict_get (dilation_iter ps) 0 > 0")
  case False
  then show ?thesis
    by (simp add: refine_step1_def grows_def)
next
  case True
  show ?thesis
  proof (cases "hu_min ps")
    case None
    with True show ?thesis
      by (simp add: refine_step1_def grows_def dict_item_def)
  next
    case lo: (Some lo)
    show ?thesis
    proof (cases "hu_max ps")
      case None
      with True lo show ?thesis
        by (simp add: refine_step1_def grows_def dict_item_def)
    next
      case hi: (Some hi)
      show ?thesis
      proof (cases "dilation_iter ps")
        case None
        with True lo hi show ?thesis
          by (simp add: refine_step1_def grows_def dict_item_def)
      next
        case (Some it)
        from apply_hu_dilation_heap [of m vol lo hi "nat it" h] show ?thesis
        proof (elim disjE exE)
          fix e assume "apply_hu_dilation m vol lo hi (nat it) h = (Inl e, h)"
          with True lo hi Some show ?thesis
            by (simp add: refine_step1_def grows_def dict_item_def then_do_def)
        next
          fix st r assume "apply_hu_dilation m vol lo hi (nat it) h = (Inr (length h, st), h @ [r])"
          with True lo hi Some show ?thesis
            by (simp add: refine_step1_def grows_def dict_item_def then_do_def)
        qed
      qed
    qed
  qed
qed

lemma refine_step2_grows: "grows m h (refine_step2 ps (m, steps_so_far) h)"
proof (cases "dict_get (closing_size ps) 1 > 1")
  case False
  then show ?thesis
    by (simp add: refine_step2_def grows_def)
next
  case True
  show ?thesis
  proof (cases "closing_size ps")
    case None
    with True show ?thesis
      by (simp add: refine_step2_def grows_def dict_item_def)
  next
    case (Some sz)
    obtain st where "apply_morphological_closing m sz h =
        ((length h, st), h @ [binary_closing (h ! m) sz])"
      using apply_morphological_closing_heap by blast
    with True Some show ?thesis
      by (simp add: refine_step2_def grows_def dict_item_def)
  qed
qed

lemma refine_step3_grows: "grows m h (refine_step3 (m, steps_so_far) h)"
  using remove_small_components_heap [of m "1 / 100" h]
  by (auto simp: refine_step3_def grows_def)

lemma refine_step4_ok:
  assumes "n \<le> m" "m < length h"
  shows "res_ok n h (refine_step4 ps (m, steps_so_far) h)"
proof (cases "dict_get (fill_holes ps) False")
  case False
  with assms show ?thesis
    by (simp add: refine_step4_def res_ok_def)
next
  case True
  obtain st h' where "fill_holes_2d m h = ((m, st), h')" "length h' = length h"
    "\<And>a. a \<noteq> m \<Longrightarrow> h' ! a = h ! a"
    using fill_holes_2d_heap [of m h] by blast
  with True assms show ?thesis
    by (auto simp: refine_step4_def res_ok_def frame_def)
qed

lemma improvement_of_total: "\<exists>q. improvement_of b f = Inr q"
  by (simp add: improvement_of_def py_truediv_def)

lemma final_statistics_ok:
  assumes "n \<le> length h"
  shows "res_ok n h (final_statistics b spacing ps st h)"
proof -
  obtain m ss where st: "st = (m, ss)" by (cases st)
  obtain q where "improvement_of b (np_sum (h ! m)) = Inr q"
    using improvement_of_total by blast
  with assms show ?thesis
    by (simp add: final_statistics_def st Let_def astype_uint8_def alloc_def res_ok_def
        frame_def nth_append)
qed

lemma refine_mask_res_ok:
  assumes "base_mask < length h"
  shows "res_ok (length h) h (refine_mask base_mask vol spacing ps h)"
proof -
  let ?n = "length h"
  let ?h0 = "h @ [h ! base_mask]"
  have f0: "frame ?n h ?h0"
    by (rule frame_alloc) simp
  have "res_ok ?n ?h0
     (then_do (refine_step1 vol ps (?n, []) ?h0) (\<lambda>st1 h1.
      then_do (refine_step2 ps st1 h1) (\<lambda>st2 h2.
      then_do (refine_step3 st2 h2) (\<lambda>st3 h3.
      then_do (refine_step4 ps st3 h3) (\<lambda>st4 h4.
        final_statistics (np_sum (?h0 ! ?n)) spacing ps st4 h4)))))"
  proof (intro res_ok_then_do, goal_cases)
    case 1
    show ?case
      by (rule grows_res_ok [OF refine_step1_grows]) simp_all
  next
    case (2 x h1)
    then show ?case
      using grows_res_ok [OF refine_step2_grows, of ?n "fst x" h1 ps "snd x"] by simp
  next
    case (3 x h1 xa h1a)
    then show ?case
      using grows_res_ok [OF refine_step3_grows, of ?n "fst xa" h1a "snd xa"] by simp
  next
    case (4 x h1 xa h1a xb h1b)
    then show ?case
      using refine_step4_ok [of ?n "fst xb" h1b ps "snd xb"] by simp
  next
    case (5 x h1 xa h1a xb h1b xc h1c)
    then have "?n \<le> length h1c"
      by simp
    then show ?case
      by (rule final_statistics_ok)
  qed
  then show ?thesis
    using f0 unfolding refine_mask_def np_copy_def alloc_def Let_def prod.case
    by (auto simp: res_ok_def intro: frame_trans)
qed

lemma then_do_Inr:
  assumes "then_do r f = (Inr y, s')"
  obtains x s where "r = (Inr x, s)" "f x s = (Inr y, s')"
  using assms by (auto simp: then_do_def split: prod.splits sum.splits)

lemma then_do_Inl:
  assumes "then_do r f = (Inl e, s')"
  shows "r = (Inl e, s') \<or> (\<exists>x s. r = (Inr x, s) \<and> f x s = (Inl e, s'))"
  using assms by (auto simp: then_do_def split: prod.splits sum.splits)

lemma then_do_simps [simp]:
  "then_do (Inl e, s) f = (Inl e, s)"
  "then_do (Inr x, s) f = f x s"
  by (simp_all add: then_do_def)

text \<open>Which steps can fail, and how.\<close>

lemma shape_dilate_step [simp]: "shape (dilate_step a) = shape a"
  by (simp add: dilate_step_def)

lemma shape_funpow_dilate_step [simp]: "shape ((dilate_step ^^ k) a) = shape a"
  by (induction k) simp_all

lemma shape_binary_dilation [simp]: "shape (binary_dilation a k) = shape a"
  by (simp add: binary_dilation_def)

lemma apply_hu_dilation_result:
  "fst (apply_hu_dilation m vol lo hi it h) = Inl ValueError \<and>
     snd (apply_hu_dilation m vol lo hi it h) = h \<and>
     broadcast_shape (shape (h ! m)) (shape vol) = None
   \<or> (\<exists>st r. apply_hu_dilation m vol lo hi it h = (Inr (length h, st), h @ [r]) \<and>
        broadcast_shape (shape (h ! m)) (shape vol) \<noteq> None)"
  by (cases "broadcast_shape (shape (h ! m)) (shape vol)")
    (simp_all add: apply_hu_dilation_def Let_def alloc_def np_and_def)

lemma refine_step1_disabled:
  "\<not> 0 < dict_get (dilation_iter ps) 0 \<Longrightarrow> refine_step1 vol ps st h = (Inr st, h)"
  by (cases st) (simp add: refine_step1_def)

lemma refine_step2_disabled:
  "\<not> 1 < dict_get (closing_size ps) 1 \<Longrightarrow> refine_step2 ps st h = (Inr st, h)"
  by (cases st) (simp add: refine_step2_def)

lemma refine_step4_disabled:
  "\<not> dict_get (fill_holes ps) False \<Longrightarrow> refine_step4 ps st h = (Inr st, h)"
  by (cases st) (simp add: refine_step4_def)

lemma refine_step2_total: "\<exists>x h'. refine_step2 ps st h = (Inr x, h')"
proof -
  obtain m ss where st: "st = (m, ss)" by (cases st)
  show ?thesis
  proof (cases "closing_size ps")
    case None
    then show ?thesis
      by (simp add: refine_step2_def st dict_get_def)
  next
    case (Some sz)
    then show ?thesis
      using apply_morphological_closing_heap [of m sz h]
      by (auto simp: refine_step2_def st dict_item_def)
  qed
qed

lemma refine_step3_total: "\<exists>x h'. refine_step3 st h = (Inr x, h')"
  by (cases st) (auto simp: refine_step3_def split: prod.splits)

lemma refine_step3_eq:
  "refine_step3 (m, ss) h =
     (Inr (fst (fst (remove_small_components m (1 / 100) h)),
           ss @ [\<lparr>name = ''Noise Removal'',
                  entries = snd (fst (remove_small_components m (1 / 100) h))\<rparr>]),
      snd (remove_small_components m (1 / 100) h))"
  by (simp add: refine_step3_def split: prod.splits)

lemma refine_step4_total: "\<exists>x h'. refine_step4 ps st h = (Inr x, h')"
  by (cases st) (auto simp: refine_step4_def split: prod.splits)

lemma final_statistics_eq:
  "final_statistics b spacing ps (m, ss) h =
     (Inr (length h,
           \<lparr>base_count = b, steps = ss, final_count = np_sum (h ! m),
            improvement_percent =
              (if 0 < b then of_int (np_sum (h ! m) - b) / of_int b * 100 else 0),
            volume_ml = of_int (np_sum (h ! m)) * np_prod spacing / 1000,
            params = ps\<rparr>),
      h @ [(h ! m)\<lparr>data := map (\<lambda>x. x mod 256) (data (h ! m))\<rparr>])"
  by (simp add: final_statistics_def improvement_of_def py_truediv_def Let_def
      astype_uint8_def alloc_def)

lemma refine_mask_unfold:
  "refine_mask base_mask vol spacing ps h =
     then_do (refine_step1 vol ps (length h, []) (h @ [h ! base_mask])) (\<lambda>st1 h1.
     then_do (refine_step2 ps st1 h1) (\<lambda>st2 h2.
     then_do (refine_step3 st2 h2) (\<lambda>st3 h3.
     then_do (refine_step4 ps st3 h3) (\<lambda>st4 h4.
       final_statistics (np_sum (h ! base_mask)) spacing ps st4 h4))))"
  by (simp add: refine_mask_def np_copy_def alloc_def)

lemma refine_mask_after_step1:
  assumes "refine_step1 vol ps (length h, []) (h @ [h ! base_mask]) = (Inr st1, h1)"
  shows "\<exists>r h'. refine_mask base_mask vol spacing ps h = (Inr r, h')"
proof -
  obtain st2 h2 where s2: "refine_step2 ps st1 h1 = (Inr st2, h2)"
    using refine_step2_total by blast
  obtain st3 h3 where s3: "refine_step3 st2 h2 = (Inr st3, h3)"
    using refine_step3_total by blast
  obtain st4 h4 where s4: "refine_step4 ps st3 h3 = (Inr st4, h4)"
    using refine_step4_total by blast
  obtain m4 ss4 where st4: "st4 = (m4, ss4)" by (cases st4)
  show ?thesis
    by (simp add: refine_mask_unfold assms s2 s3 s4 st4 final_statistics_eq)
qed

lemma refine_mask_final:
  assumes "refine_mask base_mask vol spacing ps h = (Inr (out, st), h')"
  obtains m4 ss4 h4 where
    "final_statistics (np_sum (h ! base_mask)) spacing ps (m4, ss4) h4 = (Inr (out, st), h')"
proof -
  from assms [unfolded refine_mask_unfold] obtain st1 h1 st2 h2 st3 h3 st4 h4 where
    "final_statistics (np_sum (h ! base_mask)) spacing ps st4 h4 = (Inr (out, st), h')"
    by (elim then_do_Inr) blast
  then show ?thesis
    using that by (cases st4) auto
qed

lemma refine_step1_errors:
  assumes "refine_step1 vol ps st h = (Inl e, h')"
  shows "e \<noteq> ZeroDivisionError"
proof -
  obtain m ss where st: "st = (m, ss)" by (cases st)
  show ?thesis
  proof (cases "0 < dict_get (dilation_iter ps) 0")
    case False
    with assms show ?thesis
      by (simp add: refine_step1_disabled)
  next
    case True
    show ?thesis
    proof (cases "hu_min ps = None \<or> hu_max ps = None \<or> dilation_iter ps = None")
      case True
      with assms \<open>0 < dict_get (dilation_iter ps) 0\<close> show ?thesis
        by (auto simp: refine_step1_def st dict_item_def split: option.splits)
    next
      case False
      then obtain lo hi it where p: "hu_min ps = Some lo" "hu_max ps = Some hi"
        "dilation_iter ps = Some it"
        by auto
      from apply_hu_dilation_result [of m vol lo hi "nat it" h] assms True show ?thesis
        by (cases "apply_hu_dilation m vol lo hi (nat it) h")
          (auto simp: refine_step1_def st p dict_item_def)
    qed
  qed
qed

lemma refine_mask_errors:
  assumes "refine_mask base_mask vol spacing ps h = (Inl e, h')"
  shows "e \<noteq> ZeroDivisionError"
proof -
  let ?h0 = "h @ [h ! base_mask]"
  show ?thesis
  proof (cases "refine_step1 vol ps (length h, []) ?h0")
    case (Pair r h1)
    show ?thesis
    proof (cases r)
      case (Inl e1)
      with Pair assms have "e1 = e"
        by (simp add: refine_mask_unfold)
      with Pair Inl show ?thesis
        using refine_step1_errors by blast
    next
      case (Inr st1)
      with Pair have "\<exists>r h'. refine_mask base_mask vol spacing ps h = (Inr r, h')"
        by (intro refine_mask_after_step1) simp
      with assms show ?thesis
        by simp
    qed
  qed
qed

text \<open>
  Claim C2 as the spec states it: whenever the shapes of mask and volume differ,
  \<open>refine_mask\<close> fails with a shape-mismatch error. A mask of shape \<open>(1, 1, 3)\<close> and a
  volume of shape \<open>(1, 1, 2)\<close>, with dilation switched off, give a result: the function
  compares no shapes, and without dilation it never reads the volume.
\<close>

theorem C2_counterexample:
  "shape (demo_heap ! 0) \<noteq> shape demo_volume \<and>
   fst (refine_mask 0 demo_volume (1, 1, 1) demo_params demo_heap) =
     Inr (3, \<lparr>base_count = 2,
               steps = [\<lparr>name = ''Noise Removal'',
                         entries = [(''voxels_before'', 2), (''voxels_after'', 2),
                                    (''voxels_removed'', 0), (''components_total'', 2),
                                    (''components_kept'', 2), (''components_removed'', 0)]\<rparr>],
               final_count = 2, improvement_percent = 0, volume_ml = 1 / 500,
               params = demo_params\<rparr>)"
  by code_simp

text \<open>
  Claim C2, amended: \<open>refine_mask\<close> has no shape check of its own. With dilation off
  (\<open>dilation_iter\<close> absent or not positive) it returns a result that does not depend on the
  volume at all, whatever the volume's shape. With dilation on and \<open>hu_min\<close>, \<open>hu_max\<close>
  present, it fails exactly when the two shapes cannot be broadcast together, with the
  \<open>ValueError\<close> that \<open>dilated & lung_tissue\<close> raises, and returns a result otherwise.
\<close>

theorem C2_shape_handling:
  assumes "base_mask < length h"
  shows "(\<not> 0 < dict_get (dilation_iter ps) 0 \<longrightarrow>
            refine_mask base_mask vol spacing ps h = refine_mask base_mask vol' spacing ps h \<and>
            (\<exists>r. fst (refine_mask base_mask vol spacing ps h) = Inr r))
       \<and> (0 < dict_get (dilation_iter ps) 0 \<and> hu_min ps \<noteq> None \<and> hu_max ps \<noteq> None \<longrightarrow>
            (broadcast_shape (shape (h ! base_mask)) (shape vol) = None \<longrightarrow>
               fst (refine_mask base_mask vol spacing ps h) = Inl ValueError) \<and>
            (broadcast_shape (shape (h ! base_mask)) (shape vol) \<noteq> None \<longrightarrow>
               (\<exists>r. fst (refine_mask base_mask vol spacing ps h) = Inr r)))"
proof (intro conjI impI)
  let ?n = "length h"
  let ?h0 = "h @ [h ! base_mask]"
  {
    assume off: "\<not> 0 < dict_get (dilation_iter ps) 0"
    then show "refine_mask base_mask vol spacing ps h = refine_mask base_mask vol' spacing ps h"
      by (simp add: refine_mask_unfold refine_step1_disabled)
    from off have "refine_step1 vol ps (?n, []) ?h0 = (Inr (?n, []), ?h0)"
      by (rule refine_step1_disabled)
    then have "\<exists>r h'. refine_mask base_mask vol spacing ps h = (Inr r, h')"
      by (rule refine_mask_after_step1)
    then show "\<exists>r. fst (refine_mask base_mask vol spacing ps h) = Inr r"
      by auto
  }
  {
    assume on: "0 < dict_get (dilation_iter ps) 0 \<and> hu_min ps \<noteq> None \<and> hu_max ps \<noteq> None"
    then obtain lo hi it where p: "hu_min ps = Some lo" "hu_max ps = Some hi"
      "dilation_iter ps = Some it"
      by (cases "dilation_iter ps") (auto simp: dict_get_def)
    have sh: "shape (?h0 ! ?n) = shape (h ! base_mask)"
      by simp
    {
      assume none: "broadcast_shape (shape (h ! base_mask)) (shape vol) = None"
      with apply_hu_dilation_result [of ?n vol lo hi "nat it" ?h0]
      have "apply_hu_dilation ?n vol lo hi (nat it) ?h0 = (Inl ValueError, ?h0)"
        unfolding sh by (metis option.distinct(1) prod.collapse)
      with on p show "fst (refine_mask base_mask vol spacing ps h) = Inl ValueError"
        by (simp add: refine_mask_unfold refine_step1_def dict_item_def)
    }
    {
      assume some: "broadcast_shape (shape (h ! base_mask)) (shape vol) \<noteq> None"
      with apply_hu_dilation_result [of ?n vol lo hi "nat it" ?h0]
      obtain st r where "apply_hu_dilation ?n vol lo hi (nat it) ?h0 =
          (Inr (length ?h0, st), ?h0 @ [r])"
        unfolding sh by blast
      with on p have "\<exists>st1 h1. refine_step1 vol ps (?n, []) ?h0 = (Inr st1, h1)"
        by (simp add: refine_step1_def dict_item_def)
      then have "\<exists>r h'. refine_mask base_mask vol spacing ps h = (Inr r, h')"
        using refine_mask_after_step1 by blast
      then show "\<exists>r. fst (refine_mask base_mask vol spacing ps h) = Inr r"
        by auto
    }
  }
qed

text \<open>
  A witness for C2: dilation off; dilation on with shapes \<open>(1, 1, 3)\<close> and \<open>(1, 1, 2)\<close>,
  which do not broadcast; dilation on with equal shapes.
\<close>

theorem C2_shape_handling_witness:
  "(0::nat) < length demo_heap \<and>
   \<not> 0 < dict_get (dilation_iter demo_params) 0 \<and>
   (\<exists>r. fst (refine_mask 0 demo_volume (1, 1, 1) demo_params demo_heap) = Inr r) \<and>
   0 < dict_get (dilation_iter fill_params) 0 \<and>
   hu_min fill_params \<noteq> None \<and> hu_max fill_params \<noteq> None \<and>
   broadcast_shape (shape (demo_heap ! 0)) (shape demo_volume) = None \<and>
   fst (refine_mask 0 demo_volume (1, 1, 1) fill_params demo_heap) = Inl ValueError \<and>
   broadcast_shape (shape (ring_heap ! 0)) (shape ring_volume) \<noteq> None \<and>
   (\<exists>r. fst (refine_mask 0 ring_volume (1, 1, 1) fill_params ring_heap) = Inr r)"
proof -
  have h: "(0::nat) < length demo_heap" "(0::nat) < length ring_heap"
    by (simp_all add: demo_heap_def ring_heap_def)
  have off: "\<not> 0 < dict_get (dilation_iter demo_params) 0"
    by (simp add: demo_params_def dict_get_def)
  have on: "0 < dict_get (dilation_iter fill_params) 0 \<and> hu_min fill_params \<noteq> None \<and>
      hu_max fill_params \<noteq> None"
    by (simp add: fill_params_def dict_get_def)
  have b1: "broadcast_shape (shape (demo_heap ! 0)) (shape demo_volume) = None"
    by (simp add: demo_heap_def demo_volume_def broadcast_shape_def broadcast_dim_def)
  have b2: "broadcast_shape (shape (ring_heap ! 0)) (shape ring_volume) \<noteq> None"
    by (simp add: ring_heap_def ring_volume_def broadcast_shape_def broadcast_dim_def)
  show ?thesis
    using C2_shape_handling [OF h(1), of demo_params demo_volume "(1, 1, 1)" demo_volume]
      C2_shape_handling [OF h(1), of fill_params demo_volume "(1, 1, 1)" demo_volume]
      C2_shape_handling [OF h(2), of fill_params ring_volume "(1, 1, 1)" ring_volume]
      h off on b1 b2
    by blast
qed

text \<open>
  Claim C4: with \<open>dilation_iter = 0\<close>, \<open>closing_size = 1\<close> and \<open>fill_holes = False\<close>,
  \<open>refine_mask\<close> returns a result whose \<open>steps\<close> list is exactly the one
  \<open>Noise Removal\<close> entry, holding the statistics of \<open>_remove_small_components\<close> on the copy
  of the input, and \<open>final_count \<le> base_count\<close>.
\<close>

theorem C4_all_stages_disabled:
  assumes "base_mask < length h" and "wf_array (h ! base_mask)"
    and "dilation_iter ps = Some 0" and "closing_size ps = Some 1" and "fill_holes ps = Some False"
  shows "\<exists>out st h'. refine_mask base_mask vol spacing ps h = (Inr (out, st), h') \<and>
           map name (steps st) = [''Noise Removal''] \<and>
           entries (hd (steps st)) =
             snd (fst (remove_small_components (length h) (1 / 100) (h @ [h ! base_mask]))) \<and>
           base_count st = np_sum (h ! base_mask) \<and>
           final_count st = np_sum (h' ! out) \<and>
           final_count st \<le> base_count st"
proof -
  let ?n = "length h"
  let ?m = "h ! base_mask"
  let ?h0 = "h @ [?m]"
  let ?r = "remove_small_components ?n (1 / 100) ?h0"
  have off: "\<not> 0 < dict_get (dilation_iter ps) 0" "\<not> 1 < dict_get (closing_size ps) 1"
    "\<not> dict_get (fill_holes ps) False"
    using assms(3-5) by (simp_all add: dict_get_def)
  have m: "?h0 ! ?n = ?m"
    by simp
  have le: "np_sum (snd ?r ! fst (fst ?r)) \<le> np_sum ?m \<and>
      list_all (\<lambda>x. x < 256) (data (snd ?r ! fst (fst ?r)))"
  proof (cases "voxels ?m = {}")
    case True
    then have "?r = ((?n, [(''voxels_before'', np_sum (?h0 ! ?n)), (''voxels_after'', 0),
        (''components_removed'', 0)]), ?h0)"
      by (intro rsc_empty) simp
    moreover have "data ?m ! i = 0" if "i < length (data ?m)" for i
      using True that assms(2) by (auto simp: voxels_def foreground_def wf_array_def)
    then have "list_all (\<lambda>x. x < 256) (data ?m)"
      by (simp add: list_all_length)
    ultimately show ?thesis
      by simp
  next
    case False
    then have "?r = ((length ?h0, rsc_stats (?h0 ! ?n) (1 / 100)), ?h0 @ [cleaned (?h0 ! ?n) (1 / 100)])"
      using assms(2) by (intro rsc_nonempty) simp_all
    moreover have "list_all (\<lambda>x. x < 256) (data (cleaned ?m (1 / 100)))"
      by (auto simp: cleaned_def list_all_iff)
    ultimately show ?thesis
      using np_sum_cleaned_le [OF assms(2), of "1 / 100"] by (simp add: nth_append)
  qed
  then have mod: "map (\<lambda>x. x mod 256) (data (snd ?r ! fst (fst ?r))) = data (snd ?r ! fst (fst ?r))"
    by (simp add: list_all_iff map_idI)
  have "refine_mask base_mask vol spacing ps h =
      final_statistics (np_sum ?m) spacing ps
        (fst (fst ?r), [\<lparr>name = ''Noise Removal'', entries = snd (fst ?r)\<rparr>]) (snd ?r)"
    by (simp add: refine_mask_unfold refine_step1_disabled refine_step2_disabled
        refine_step4_disabled off refine_step3_eq)
  then show ?thesis
    using le by (simp add: final_statistics_eq mod np_sum_def)
qed

text \<open>
  A witness for C4 on the mask \<open>[1, 0, 1]\<close>.
\<close>

theorem C4_all_stages_disabled_witness:
  "(0::nat) < length demo_heap \<and> wf_array (demo_heap ! 0) \<and>
   dilation_iter demo_params = Some 0 \<and> closing_size demo_params = Some 1 \<and>
   fill_holes demo_params = Some False \<and>
   (\<exists>out st h'. refine_mask 0 demo_volume (1, 1, 1) demo_params demo_heap = (Inr (out, st), h') \<and>
      map name (steps st) = [''Noise Removal''] \<and>
      final_count st \<le> base_count st)"
proof -
  have h: "(0::nat) < length demo_heap" "wf_array (demo_heap ! 0)"
    "dilation_iter demo_params = Some 0" "closing_size demo_params = Some 1"
    "fill_holes demo_params = Some False"
    by (simp_all add: demo_heap_def demo_params_def wf_array_def numel_def)
  from C4_all_stages_disabled [OF h, of demo_volume "(1, 1, 1)"]
  obtain out st h' where
    "refine_mask 0 demo_volume (1, 1, 1) demo_params demo_heap = (Inr (out, st), h')"
    "map name (steps st) = [''Noise Removal'']" "final_count st \<le> base_count st"
    by auto
  with h show ?thesis
    by auto
qed

text \<open>
  Claim C8: \<open>refine_mask\<close> leaves the caller's mask as it was. Stronger, every array that
  existed before the call is unchanged after it, whether the call returns or raises, and
  the mask it returns is an array created during the call.
\<close>

theorem C8_input_mask_not_mutated:
  assumes "base_mask < length h"
  shows "snd (refine_mask base_mask vol spacing ps h) ! base_mask = h ! base_mask \<and>
         take (length h) (snd (refine_mask base_mask vol spacing ps h)) = h \<and>
         (\<forall>out st. fst (refine_mask base_mask vol spacing ps h) = Inr (out, st) \<longrightarrow>
            length h \<le> out \<and> out < length (snd (refine_mask base_mask vol spacing ps h)))"
proof -
  let ?res = "refine_mask base_mask vol spacing ps h"
  have ok: "res_ok (length h) h ?res"
    using assms by (rule refine_mask_res_ok)
  then have len: "length h \<le> length (snd ?res)" and same: "\<And>a. a < length h \<Longrightarrow> snd ?res ! a = h ! a"
    by (simp_all add: res_ok_def frame_def)
  have "take (length h) (snd ?res) = h"
    using len same by (intro nth_equalityI) simp_all
  moreover have "length h \<le> out \<and> out < length (snd ?res)" if "fst ?res = Inr (out, st)" for out st
    using ok that by (auto simp: res_ok_def)
  ultimately show ?thesis
    using same [OF assms] by blast
qed

text \<open>
  The hole filling does write into the array it is given: the frame property of
  \<open>refine_mask\<close> holds because that array is never the caller's.
\<close>

lemma fill_holes_2d_mutates_its_argument:
  "snd (fill_holes_2d 0 ring_heap) ! 0 = \<lparr>shape = (1, 3, 3), data = [1, 1, 1, 1, 1, 1, 1, 1, 1]\<rparr> \<and>
   ring_heap ! 0 = \<lparr>shape = (1, 3, 3), data = [1, 1, 1, 1, 0, 1, 1, 1, 1]\<rparr>"
  by code_simp

text \<open>
  A witness for C8 on a ring with a hole, with dilation and hole filling on.
\<close>

theorem C8_input_mask_not_mutated_witness:
  "(0::nat) < length ring_heap \<and>
   snd (refine_mask 0 ring_volume (1, 1, 1) fill_params ring_heap) ! 0 = ring_heap ! 0 \<and>
   take (length ring_heap) (snd (refine_mask 0 ring_volume (1, 1, 1) fill_params ring_heap)) = ring_heap"
proof -
  have h: "(0::nat) < length ring_heap"
    by (simp add: ring_heap_def)
  from C8_input_mask_not_mutated [OF h, of ring_volume "(1, 1, 1)" fill_params] h show ?thesis
    by blast
qed

text \<open>
  Claim C9: \<open>refine_mask\<close> never fails with a division by zero, and the statistics it
  returns satisfy \<open>improvement_percent = (final_count - base_count) / base_count * 100\<close>
  when \<open>base_count > 0\<close> and \<open>improvement_percent = 0\<close> otherwise, and
  \<open>volume_ml = final_count * sx * sy * sz / 1000\<close>; with spacing \<open>(1, 1, 1)\<close> and
  \<open>final_count = 2000\<close> that is \<open>volume_ml = 2\<close>.
\<close>

theorem C9_statistics:
  assumes "base_mask < length h"
  shows "fst (refine_mask base_mask vol (sx, sy, sz) ps h) \<noteq> Inl ZeroDivisionError \<and>
         (\<forall>out st. fst (refine_mask base_mask vol (sx, sy, sz) ps h) = Inr (out, st) \<longrightarrow>
            base_count st = np_sum (h ! base_mask) \<and>
            improvement_percent st =
              (if 0 < base_count st
               then of_int (final_count st - base_count st) / of_int (base_count st) * 100
               else 0) \<and>
            volume_ml st = of_int (final_count st) * sx * sy * sz / 1000 \<and>
            ((sx, sy, sz) = (1, 1, 1) \<and> final_count st = 2000 \<longrightarrow> volume_ml st = 2))"
proof (intro conjI allI impI)
  let ?res = "refine_mask base_mask vol (sx, sy, sz) ps h"
  show "fst ?res \<noteq> Inl ZeroDivisionError"
    using refine_mask_errors [of base_mask vol "(sx, sy, sz)" ps h ZeroDivisionError "snd ?res"]
    by (metis prod.collapse)
  fix out st
  assume "fst ?res = Inr (out, st)"
  then have "?res = (Inr (out, st), snd ?res)"
    by (metis prod.collapse)
  then obtain m4 ss4 h4 where
    "final_statistics (np_sum (h ! base_mask)) (sx, sy, sz) ps (m4, ss4) h4 = (Inr (out, st), snd ?res)"
    by (rule refine_mask_final)
  then have st: "st = \<lparr>base_count = np_sum (h ! base_mask), steps = ss4,
      final_count = np_sum (h4 ! m4),
      improvement_percent =
        (if 0 < np_sum (h ! base_mask)
         then of_int (np_sum (h4 ! m4) - np_sum (h ! base_mask)) / of_int (np_sum (h ! base_mask)) * 100
         else 0),
      volume_ml = of_int (np_sum (h4 ! m4)) * np_prod (sx, sy, sz) / 1000,
      params = ps\<rparr>"
    by (simp add: final_statistics_eq)
  show "base_count st = np_sum (h ! base_mask)"
    by (simp add: st)
  show "improvement_percent st =
      (if 0 < base_count st
       then of_int (final_count st - base_count st) / of_int (base_count st) * 100 else 0)"
    by (simp add: st)
  show v: "volume_ml st = of_int (final_count st) * sx * sy * sz / 1000"
    by (simp add: st np_prod_def mult.assoc)
  show "volume_ml st = 2" if "(sx, sy, sz) = (1, 1, 1) \<and> final_count st = 2000"
    using that v by simp
qed

text \<open>On a mask of zeros and ones the size of a component is its number of voxels.\<close>

lemma components_subset_voxels: "C \<in> components m \<Longrightarrow> C \<subseteq> voxels m"
  by (auto simp: components_def dest: component_subset_voxels)

lemma finite_components [simp]: "finite (components m)"
  by (simp add: components_def)

lemma components_empty_iff: "components m = {} \<longleftrightarrow> voxels m = {}"
  by (simp add: components_def)

lemma binary_max_comp_size:
  assumes "is_binary m" "wf_array m"
  shows "max_comp_size m = Max (card ` components m)"
proof -
  have "comp_size m ` voxels m = (\<lambda>u. card (component m u)) ` voxels m"
    by (rule image_cong [OF refl]) (simp add: binary_comp_size assms)
  also have "\<dots> = card ` components m"
    by (simp add: components_def image_image)
  finally show ?thesis
    by (simp add: max_comp_size_def)
qed

lemma binary_kept_components:
  assumes "is_binary m" "wf_array m"
  shows "kept_components m ratio =
     {C \<in> components m. of_nat (Max (card ` components m)) * ratio < (of_nat (card C) :: rat)}"
  using assms
  by (auto simp: kept_components_def binary_max_comp_size binary_csum components_subset_voxels)

lemma kept_iff_component:
  "kept m ratio u \<longleftrightarrow> u \<in> voxels m \<and> component m u \<in> kept_components m ratio"
  by (auto simp: kept_def kept_components_def components_def comp_size_csum)

lemma component_of_member:
  assumes "C \<in> components m" "u \<in> C"
  shows "component m u = C" and "u \<in> voxels m"
proof -
  from assms obtain v where v: "v \<in> voxels m" "C = component m v"
    by (auto simp: components_def)
  with assms(2) have "(v, u) \<in> connected m"
    by (simp add: component_def)
  then have "component m v = component m u"
    by (rule component_eq)
  with v show "component m u = C"
    by simp
  from v assms(2) show "u \<in> voxels m"
    using component_subset_voxels by blast
qed

lemma removed_voxels:
  "voxels m - {u. kept m ratio u} = \<Union> (components m - kept_components m ratio)"
proof (intro set_eqI iffI)
  fix u assume "u \<in> voxels m - {u. kept m ratio u}"
  then have u: "u \<in> voxels m" "component m u \<notin> kept_components m ratio"
    by (simp_all add: kept_iff_component)
  then have "component m u \<in> components m - kept_components m ratio"
    by (simp add: components_def)
  moreover have "u \<in> component m u"
    by simp
  ultimately show "u \<in> \<Union> (components m - kept_components m ratio)"
    by blast
next
  fix u assume "u \<in> \<Union> (components m - kept_components m ratio)"
  then obtain C where C: "C \<in> components m" "C \<notin> kept_components m ratio" "u \<in> C"
    by blast
  from component_of_member [OF C(1,3)] C(2) show "u \<in> voxels m - {u. kept m ratio u}"
    by (simp add: kept_iff_component)
qed

lemma kept_voxels:
  "{u. kept m ratio u} = voxels m - \<Union> (components m - kept_components m ratio)"
  using removed_voxels [of m ratio] kept_subset_voxels [of m ratio] by blast

lemma components_cleaned:
  "components (cleaned m ratio) = kept_components m ratio"
proof -
  have "components (cleaned m ratio) = component (cleaned m ratio) ` {u. kept m ratio u}"
    by (simp add: components_def voxels_cleaned)
  also have "\<dots> = component m ` {u. kept m ratio u}"
    by (rule image_cong [OF refl]) (simp add: component_cleaned)
  also have "\<dots> = kept_components m ratio"
  proof (intro set_eqI iffI)
    fix C assume "C \<in> component m ` {u. kept m ratio u}"
    then show "C \<in> kept_components m ratio"
      by (auto simp: kept_iff_component)
  next
    fix C assume C: "C \<in> kept_components m ratio"
    then have "C \<in> components m"
      by (simp add: kept_components_def)
    then obtain v where v: "v \<in> voxels m" "C = component m v"
      by (auto simp: components_def)
    with C have "kept m ratio v"
      by (simp add: kept_iff_component)
    with v show "C \<in> component m ` {u. kept m ratio u}"
      by blast
  qed
  finally show ?thesis .
qed

lemma binary_voxels_removed:
  assumes "is_binary m" "wf_array m"
  shows "np_sum m - np_sum (cleaned m ratio) =
     int (card (\<Union> (components m - kept_components m ratio)))"
proof -
  have "finite {u. kept m ratio u}"
    by (rule finite_subset [OF kept_subset_voxels]) simp
  then have "card (voxels m - {u. kept m ratio u}) = card (voxels m) - card {u. kept m ratio u}"
    by (rule card_Diff_subset) (rule kept_subset_voxels)
  moreover have "card {u. kept m ratio u} \<le> card (voxels m)"
    by (rule card_mono) (simp_all add: kept_subset_voxels)
  ultimately have "int (card (voxels m - {u. kept m ratio u})) =
      int (card (voxels m)) - int (card {u. kept m ratio u})"
    by simp
  then show ?thesis
    by (simp add: binary_np_sum assms np_sum_cleaned removed_voxels)
qed

lemma kept_ratio_ge_1:
  assumes "1 \<le> ratio"
  shows "\<not> kept m ratio u"
proof
  assume k: "kept m ratio u"
  then have "comp_size m u \<le> max_comp_size m"
    by (simp add: kept_def comp_size_le_max)
  then have "(of_nat (comp_size m u) :: rat) \<le> of_nat (max_comp_size m)"
    by simp
  also have "\<dots> = of_nat (max_comp_size m) * 1"
    by simp
  also have "\<dots> \<le> of_nat (max_comp_size m) * ratio"
    using assms by (intro mult_left_mono) simp_all
  finally show False
    using k by (simp add: kept_def)
qed

lemma voxels_cleaned_ratio_ge_1: "1 \<le> ratio \<Longrightarrow> voxels (cleaned m ratio) = {}"
  by (simp add: voxels_cleaned kept_ratio_ge_1)

lemma rsc_twice:
  assumes wf: "wf_array (h ! a)" and bin: "is_binary (h ! a)"
    and r1: "remove_small_components a ratio h = ((a1, st1), h1)"
    and r2: "remove_small_components a1 ratio h1 = ((a2, st2), h2)"
  shows "h2 ! a2 = h1 ! a1"
proof (cases "voxels (h ! a) = {}")
  case True
  from rsc_empty [OF True, of ratio] r1 have "a1 = a" "h1 = h"
    by simp_all
  with rsc_empty [OF True, of ratio] r2 show ?thesis
    by simp
next
  case False
  let ?c = "cleaned (h ! a) ratio"
  from rsc_nonempty [OF wf False, of ratio] r1 have 1: "a1 = length h" "h1 = h @ [?c]"
    by simp_all
  then have c: "h1 ! a1 = ?c"
    by simp
  show ?thesis
  proof (cases "voxels ?c = {}")
    case True
    then have "voxels (h1 ! a1) = {}"
      by (simp add: c)
    from rsc_empty [OF this, of ratio] r2 show ?thesis
      by simp
  next
    case ne: False
    then have "ratio < 1"
      using voxels_cleaned_ratio_ge_1 [of ratio "h ! a"] by (cases "ratio < 1") auto
    then have idem: "cleaned ?c ratio = ?c"
      using bin wf False by (intro cleaned_idem)
    have "wf_array (h1 ! a1)" "voxels (h1 ! a1) \<noteq> {}"
      using ne by (simp_all add: c)
    from rsc_nonempty [OF this, of ratio] r2 have "a2 = length h1" "h2 = h1 @ [cleaned (h1 ! a1) ratio]"
      by simp_all
    then show ?thesis
      by (simp add: c idem)
  qed
qed

text \<open>
  Claim C5: applying \<open>_remove_small_components\<close> to its own output gives the same mask
  as applying it once. Proved for every mask of zeros and ones (the values a mask holds)
  and every threshold ratio: the array the second call returns equals the array the
  first call returned.
\<close>

theorem C5_removal_idempotent:
  assumes "a < length h" and "wf_array (h ! a)" and "is_binary (h ! a)"
    and "remove_small_components a ratio h = ((a1, st1), h1)"
    and "remove_small_components a1 ratio h1 = ((a2, st2), h2)"
  shows "h2 ! a2 = h1 ! a1"
  using assms(2-5) by (rule rsc_twice)

text \<open>
  A witness for C5 on the mask \<open>[1, 0, 1]\<close>, with the default ratio.
\<close>

theorem C5_removal_idempotent_witness:
  "(0::nat) < length demo_heap \<and> wf_array (demo_heap ! 0) \<and> is_binary (demo_heap ! 0) \<and>
   remove_small_components 0 (1 / 100) demo_heap =
     ((1, [(''voxels_before'', 2), (''voxels_after'', 2), (''voxels_removed'', 0),
           (''components_total'', 2), (''components_kept'', 2), (''components_removed'', 0)]),
      demo_heap @ [\<lparr>shape = (1, 1, 3), data = [1, 0, 1]\<rparr>]) \<and>
   remove_small_components 1 (1 / 100) (demo_heap @ [\<lparr>shape = (1, 1, 3), data = [1, 0, 1]\<rparr>]) =
     ((2, [(''voxels_before'', 2), (''voxels_after'', 2), (''voxels_removed'', 0),
           (''components_total'', 2), (''components_kept'', 2), (''components_removed'', 0)]),
      (demo_heap @ [\<lparr>shape = (1, 1, 3), data = [1, 0, 1]\<rparr>]) @
        [\<lparr>shape = (1, 1, 3), data = [1, 0, 1]\<rparr>]) \<and>
   ((demo_heap @ [\<lparr>shape = (1, 1, 3), data = [1, 0, 1]\<rparr>]) @
        [\<lparr>shape = (1, 1, 3), data = [1, 0, 1]\<rparr>]) ! 2 =
     (demo_heap @ [\<lparr>shape = (1, 1, 3), data = [1, 0, 1]\<rparr>]) ! 1"
proof -
  let ?m = "\<lparr>shape = (1, 1, 3), data = [1, 0, 1]\<rparr> :: mask"
  let ?st = "[(''voxels_before'', 2), (''voxels_after'', 2), (''voxels_removed'', 0),
      (''components_total'', 2), (''components_kept'', 2), (''components_removed'', 0)] :: step_stats"
  have h: "(0::nat) < length demo_heap" "wf_array (demo_heap ! 0)" "is_binary (demo_heap ! 0)"
    by (simp_all add: demo_heap_def wf_array_def numel_def is_binary_def)
  have r1: "remove_small_components 0 (1 / 100) demo_heap = ((1, ?st), demo_heap @ [?m])"
    by code_simp
  have r2: "remove_small_components 1 (1 / 100) (demo_heap @ [?m]) =
      ((2, ?st), (demo_heap @ [?m]) @ [?m])"
    by code_simp
  from C5_removal_idempotent [OF h r1 r2] h r1 r2 show ?thesis
    by blast
qed

text \<open>
  Why C5 is stated for masks of zeros and ones: \<open>ndimage.sum(mask, labeled, \<dots>)\<close> adds up
  the values of the array, so on an array with other values the sizes of the first pass
  are value sums and those of the second pass are voxel counts. With the ratio \<open>1/2\<close>
  the array \<open>[1, 1, 0, 2]\<close> keeps both components in the first pass and loses the second
  one in the second pass.
\<close>

lemma remove_small_components_values_matter:
  "snd (remove_small_components 0 (1 / 2) [\<lparr>shape = (1, 1, 4), data = [1, 1, 0, 2]\<rparr>]) ! 1 =
     \<lparr>shape = (1, 1, 4), data = [1, 1, 0, 1]\<rparr> \<and>
   snd (remove_small_components 0 (1 / 2) [\<lparr>shape = (1, 1, 4), data = [1, 1, 0, 1]\<rparr>]) ! 1 =
     \<lparr>shape = (1, 1, 4), data = [1, 1, 0, 0]\<rparr>"
  by code_simp

text \<open>What \<open>_remove_small_components\<close> does to a mask of zeros and ones, by voxel counts.\<close>

lemma small_components:
  assumes "is_binary m" "wf_array m"
  defines "small \<equiv> {C \<in> components m.
      (of_nat (card C) :: rat) \<le> of_nat (Max (card ` components m)) * (1 / 100)}"
  shows "kept_components m (1 / 100) = components m - small"
    and "components m - kept_components m (1 / 100) = small"
    and "small \<subseteq> components m"
  unfolding small_def binary_kept_components [OF assms(1,2)] by auto

lemma rsc_binary:
  assumes wf: "wf_array (h ! a)" and bin: "is_binary (h ! a)" and ne: "voxels (h ! a) \<noteq> {}"
  defines "small \<equiv> {C \<in> components (h ! a).
      (of_nat (card C) :: rat) \<le> of_nat (Max (card ` components (h ! a))) * (1 / 100)}"
  shows "remove_small_components a (1 / 100) h =
     ((length h,
       [(''voxels_before'', int (card (voxels (h ! a)))),
        (''voxels_after'', int (card (voxels (h ! a) - \<Union> small))),
        (''voxels_removed'', int (card (\<Union> small))),
        (''components_total'', int (card (components (h ! a)))),
        (''components_kept'', int (card (components (h ! a) - small))),
        (''components_removed'', int (card small))]),
      h @ [cleaned (h ! a) (1 / 100)])"
    and "voxels (cleaned (h ! a) (1 / 100)) = voxels (h ! a) - \<Union> small"
    and "components (cleaned (h ! a) (1 / 100)) = components (h ! a) - small"
proof -
  let ?m = "h ! a"
  let ?c = "cleaned ?m (1 / 100)"
  have kc: "kept_components ?m (1 / 100) = components ?m - small"
    and rm: "components ?m - kept_components ?m (1 / 100) = small"
    and sub: "small \<subseteq> components ?m"
    unfolding small_def using bin wf by (rule small_components)+
  show v: "voxels ?c = voxels ?m - \<Union> small"
    by (simp only: voxels_cleaned kept_voxels rm)
  show "components ?c = components ?m - small"
    by (simp only: components_cleaned kc)
  have before: "np_sum ?m = int (card (voxels ?m))"
    using bin wf by (rule binary_np_sum)
  have after: "np_sum ?c = int (card (voxels ?m - \<Union> small))"
    using binary_np_sum [of ?c] v by simp
  have removed: "np_sum ?m - np_sum ?c = int (card (\<Union> small))"
    using binary_voxels_removed [OF bin wf, of "1 / 100"] by (simp only: rm)
  have "finite small"
    using sub by (rule finite_subset) simp
  then have "card (components ?m - small) = card (components ?m) - card small"
    using sub by (intro card_Diff_subset)
  moreover have "card small \<le> card (components ?m)"
    using sub by (intro card_mono) simp_all
  ultimately have cr: "int (card (components ?m)) - int (card (components ?m - small)) =
      int (card small)"
    by simp
  have "rsc_stats ?m (1 / 100) =
      [(''voxels_before'', int (card (voxels ?m))),
       (''voxels_after'', int (card (voxels ?m - \<Union> small))),
       (''voxels_removed'', int (card (\<Union> small))),
       (''components_total'', int (card (components ?m))),
       (''components_kept'', int (card (components ?m - small))),
       (''components_removed'', int (card small))]"
    unfolding rsc_stats_def kc removed cr unfolding before after ..
  with rsc_nonempty [OF wf ne, of "1 / 100"]
  show "remove_small_components a (1 / 100) h =
     ((length h,
       [(''voxels_before'', int (card (voxels ?m))),
        (''voxels_after'', int (card (voxels ?m - \<Union> small))),
        (''voxels_removed'', int (card (\<Union> small))),
        (''components_total'', int (card (components ?m))),
        (''components_kept'', int (card (components ?m - small))),
        (''components_removed'', int (card small))]),
      h @ [?c])"
    by simp
qed

lemma two_components_small:
  assumes "components m = {A, B}" "card A = 950" "card B = n" "n \<le> 950"
  shows "{C \<in> components m.
      (of_nat (card C) :: rat) \<le> of_nat (Max (card ` components m)) * (1 / 100)} =
    (if 2 * n \<le> 19 then {B} else {})"
proof -
  have "card ` components m = {950, n}"
    using assms by simp
  then have "Max (card ` components m) = 950"
    using assms(4) by (simp add: max_def)
  moreover have "(of_nat n :: rat) \<le> 950 * (1 / 100) \<longleftrightarrow> 2 * n \<le> 19"
  proof -
    have "(of_nat n :: rat) \<le> 950 * (1 / 100) \<longleftrightarrow> (of_nat (2 * n) :: rat) \<le> of_nat 19"
      by (simp add: mult.commute)
    also have "\<dots> \<longleftrightarrow> 2 * n \<le> 19"
      by (simp only: of_nat_le_iff)
    finally show ?thesis .
  qed
  ultimately show ?thesis
    using assms(1-3) by auto
qed

text \<open>
  Claim C3: on a mask of zeros and ones, \<open>_remove_small_components\<close> with the ratio
  \<open>0.01\<close>, where the components are those of the face connectivity that \<open>ndimage.label\<close>
  uses and \<open>max_size\<close> is the largest number of voxels of a component:
  on an empty mask it returns the very array it was given, unchanged, and reports
  no removed component; otherwise it returns a new array of the same shape whose set
  voxels are those of the components with more than \<open>max_size * 0.01\<close> voxels, these
  components being exactly the components of the result, and it reports the counts of
  voxels and components before and after. With exactly two components of 950 and 10
  voxels it reports \<open>components_kept = 2\<close> and \<open>voxels_removed = 0\<close>; with 950 and 9
  voxels it reports \<open>voxels_removed = 9\<close>.
\<close>

theorem C3_small_component_removal:
  assumes "a < length h" and "wf_array (h ! a)" and "is_binary (h ! a)"
  shows "let m = h ! a;
             res = remove_small_components a (1 / 100) h;
             out = fst (fst res); st = snd (fst res); h' = snd res;
             max_size = Max (card ` components m);
             small = {C \<in> components m. (of_nat (card C) :: rat) \<le> of_nat max_size * (1 / 100)}
         in (voxels m = {} \<longrightarrow>
               res = ((a, [(''voxels_before'', 0), (''voxels_after'', 0),
                           (''components_removed'', 0)]), h)) \<and>
            (voxels m \<noteq> {} \<longrightarrow>
               out = length h \<and> h' = h @ [h' ! out] \<and>
               shape (h' ! out) = shape m \<and> wf_array (h' ! out) \<and> is_binary (h' ! out) \<and>
               voxels (h' ! out) = voxels m - \<Union> small \<and>
               components (h' ! out) = components m - small \<and>
               st = [(''voxels_before'', int (card (voxels m))),
                     (''voxels_after'', int (card (voxels m - \<Union> small))),
                     (''voxels_removed'', int (card (\<Union> small))),
                     (''components_total'', int (card (components m))),
                     (''components_kept'', int (card (components m - small))),
                     (''components_removed'', int (card small))] \<and>
               (\<forall>A B. components m = {A, B} \<and> card A = 950 \<and> card B = 10 \<longrightarrow>
                  map_of st ''components_kept'' = Some 2 \<and>
                  map_of st ''voxels_removed'' = Some 0) \<and>
               (\<forall>A B. components m = {A, B} \<and> card A = 950 \<and> card B = 9 \<longrightarrow>
                  map_of st ''components_kept'' = Some 1 \<and>
                  map_of st ''voxels_removed'' = Some 9))"
proof -
  let ?m = "h ! a"
  let ?res = "remove_small_components a (1 / 100) h"
  let ?small = "{C \<in> components ?m.
      (of_nat (card C) :: rat) \<le> of_nat (Max (card ` components ?m)) * (1 / 100)}"
  let ?c = "cleaned ?m (1 / 100)"
  let ?st = "[(''voxels_before'', int (card (voxels ?m))),
      (''voxels_after'', int (card (voxels ?m - \<Union> ?small))),
      (''voxels_removed'', int (card (\<Union> ?small))),
      (''components_total'', int (card (components ?m))),
      (''components_kept'', int (card (components ?m - ?small))),
      (''components_removed'', int (card ?small))]"
  have empty: "?res = ((a, [(''voxels_before'', 0), (''voxels_after'', 0),
      (''components_removed'', 0)]), h)" if "voxels ?m = {}"
  proof -
    have "np_sum ?m = 0"
      using binary_np_sum [OF assms(3,2)] that by simp
    with rsc_empty [OF that, of "1 / 100"] show ?thesis
      by simp
  qed
  have nonempty: "?res = ((length h, ?st), h @ [?c])"
      "voxels ?c = voxels ?m - \<Union> ?small" "components ?c = components ?m - ?small"
    if "voxels ?m \<noteq> {}"
    using rsc_binary [OF assms(2,3) that] by blast+
  have s10: "card (components ?m - ?small) = 2 \<and> card (\<Union> ?small) = 0"
    if "components ?m = {A, B} \<and> card A = 950 \<and> card B = 10" for A B
  proof -
    from that have sm: "?small = {}"
      using two_components_small [of ?m A B 10] by simp
    from that have "A \<noteq> B"
      by auto
    with that show ?thesis
      unfolding sm by simp
  qed
  have s9: "card (components ?m - ?small) = 1 \<and> card (\<Union> ?small) = 9"
    if "components ?m = {A, B} \<and> card A = 950 \<and> card B = 9" for A B
  proof -
    from that have sm: "?small = {B}"
      using two_components_small [of ?m A B 9] by simp
    from that have "A \<noteq> B"
      by auto
    then have "{A, B} - {B} = {A}"
      by auto
    with that show ?thesis
      unfolding sm by simp
  qed
  show ?thesis
    unfolding Let_def
  proof (intro conjI impI allI)
    assume "voxels ?m = {}"
    then show "?res = ((a, [(''voxels_before'', 0), (''voxels_after'', 0),
        (''components_removed'', 0)]), h)"
      by (rule empty)
  next
    assume ne: "voxels ?m \<noteq> {}"
    note r = nonempty [OF ne]
    show "fst (fst ?res) = length h"
      by (simp add: r(1))
    show "snd ?res = h @ [snd ?res ! fst (fst ?res)]"
      by (simp add: r(1))
    show "shape (snd ?res ! fst (fst ?res)) = shape ?m"
      by (simp add: r(1))
    show "wf_array (snd ?res ! fst (fst ?res))"
      by (simp add: r(1))
    show "is_binary (snd ?res ! fst (fst ?res))"
      by (simp add: r(1))
    show "voxels (snd ?res ! fst (fst ?res)) = voxels ?m - \<Union> ?small"
      using r(2) by (simp add: r(1))
    show "components (snd ?res ! fst (fst ?res)) = components ?m - ?small"
      using r(3) by (simp add: r(1))
    show "snd (fst ?res) = ?st"
      by (simp add: r(1))
    {
      fix A B assume ab: "components ?m = {A, B} \<and> card A = 950 \<and> card B = 10"
      show "map_of (snd (fst ?res)) ''components_kept'' = Some 2"
        using s10 [OF ab] by (simp add: r(1))
      show "map_of (snd (fst ?res)) ''voxels_removed'' = Some 0"
        using s10 [OF ab] by (simp add: r(1))
    }
    {
      fix A B assume ab: "components ?m = {A, B} \<and> card A = 950 \<and> card B = 9"
      show "map_of (snd (fst ?res)) ''components_kept'' = Some 1"
        using s9 [OF ab] by (simp add: r(1))
      show "map_of (snd (fst ?res)) ''voxels_removed'' = Some 9"
        using s9 [OF ab] by (simp add: r(1))
    }
  qed
qed

end
